theory Spec2Isabelle
  imports Main "HOL-Library.Monad_Syntax"
begin

unbundle bit_operations_syntax

section \<open>Machine model\<close>

text \<open>
  The allocator of \<^verbatim>\<open>p3Heap.c\<close> works on one region obtained from \<^verbatim>\<open>mmap\<close> and reads
  and writes it only through \<^verbatim>\<open>blockHeader\<close> pointers, that is, one 4-byte \<^verbatim>\<open>int\<close> at a
  time. The memory is therefore a partial map from byte addresses to \<^verbatim>\<open>int\<close> values whose
  domain is the set of word addresses of the mapped region. An access outside the domain
  (unmapped or not on a word of the region) has no defined result.

  A C \<^verbatim>\<open>int\<close> is modelled by an Isabelle \<open>int\<close> in the range of 32 bits. Signed overflow
  is undefined behaviour in C: \<open>int_c\<close> yields \<open>None\<close> where the mathematical result does
  not fit. Every function of the model returns an option; \<open>None\<close> stands for "the C
  program has no defined behaviour here" (invalid access, signed overflow, or a search
  loop that never ends).
\<close>

type_synonym addr = int

record heap =
  mem :: "addr \<rightharpoonup> int"
  heap_start :: addr
  alloc_size :: int
  heap_end :: addr
  allocated_once :: bool

definition INT_MAX :: int where
  "INT_MAX = 2147483647"

definition INT_MIN :: int where
  "INT_MIN = - 2147483648"

definition int_c :: "int \<Rightarrow> int option" where
  "int_c x = (if INT_MIN \<le> x \<and> x \<le> INT_MAX then Some x else None)"

definition load :: "heap \<Rightarrow> addr \<Rightarrow> int option" where
  "load h a = mem h a"

definition store :: "heap \<Rightarrow> addr \<Rightarrow> int \<Rightarrow> heap option" where
  "store h a v = (if mem h a = None then None else Some (h\<lparr>mem := (mem h)(a \<mapsto> v)\<rparr>))"

text \<open>The globals before \<^verbatim>\<open>init_heap\<close> has run: nothing mapped, null pointers.\<close>

definition initial :: heap where
  "initial = \<lparr>mem = Map.empty, heap_start = 0, alloc_size = 0, heap_end = 0,
     allocated_once = False\<rparr>"

section \<open>alloc\<close>

text \<open>
  The best-fit search is the \<^verbatim>\<open>while\<close> loop of \<^verbatim>\<open>alloc\<close>. It leaves either by the
  \<^verbatim>\<open>return\<close> of the exact-match branch (\<open>Returned\<close>, with the heap as updated there and
  the payload address), or by its condition (\<open>Finished\<close>, with \<^verbatim>\<open>bestFit\<close>).
\<close>

datatype search = Returned heap addr | Finished addr

text \<open>The exact-match branch of the loop (the block at \<^verbatim>\<open>current\<close> has just the size asked
  for): set its a-bit, set the p-bit of the next header unless that is the end of the
  heap, and return the payload address.\<close>

definition exact_match :: "heap \<Rightarrow> addr \<Rightarrow> addr \<Rightarrow> search option" where
  "exact_match h current nextHeader =
     do {
       cur \<leftarrow> load h current;
       v \<leftarrow> int_c (cur + 1);
       h1 \<leftarrow> store h current v;
       h2 \<leftarrow> (if nextHeader < heap_end h1 then
                do {
                  nx \<leftarrow> load h1 nextHeader;
                  if nx AND 2 = 0 then
                    do { w \<leftarrow> int_c (nx + 2); store h1 nextHeader w }
                  else Some h1
                }
              else Some h1);
       Some (Returned h2 (current + 4))
     }"

partial_function (option) best_fit_loop ::
  "heap \<Rightarrow> int \<Rightarrow> addr \<Rightarrow> addr \<Rightarrow> int \<Rightarrow> search option" where
  "best_fit_loop h size' current bestFit bestSize =
    (if current < heap_end h then
       do {
         cur \<leftarrow> load h current;
         if cur \<noteq> 1 then
           do {
             blockSize \<leftarrow> Some (cur AND NOT 3);
             nextHeader \<leftarrow> Some (current + blockSize);
             if blockSize < size' then best_fit_loop h size' nextHeader bestFit bestSize
             else if cur AND 1 = 0 then
               if blockSize = size' then exact_match h current nextHeader
               else if blockSize \<ge> size' \<and> blockSize < bestSize
                 then best_fit_loop h size' nextHeader current blockSize
                 else best_fit_loop h size' nextHeader bestFit bestSize
             else best_fit_loop h size' nextHeader bestFit bestSize
           }
         else Some (Finished bestFit)
       }
     else Some (Finished bestFit))"

text \<open>The split of the best-fit block, the part of \<^verbatim>\<open>alloc\<close> after the loop.\<close>

definition split_block :: "heap \<Rightarrow> int \<Rightarrow> addr \<Rightarrow> (heap \<times> addr) option" where
  "split_block h size' bestFit =
     do {
       bf \<leftarrow> load h bestFit;
       totalFreeSize \<leftarrow> Some (bf AND NOT 3);
       bestFitSize \<leftarrow> int_c (totalFreeSize - size');
       newBlock \<leftarrow> Some bestFit;
       v0 \<leftarrow> int_c (size' + (bf AND 2));
       v \<leftarrow> int_c (v0 + 1);
       h1 \<leftarrow> store h newBlock v;
       bestFit' \<leftarrow> Some (newBlock + size');
       h2 \<leftarrow> store h1 (bestFit' + bestFitSize - 4) bestFitSize;
       nb \<leftarrow> load h2 newBlock;
       h3 \<leftarrow> store h2 bestFit' (bestFitSize OR (nb AND 2));
       Some (h3, newBlock + 4)
     }"

text \<open>
  \<^verbatim>\<open>size % 8\<close> is taken of a positive value here, where C's remainder and \<open>mod\<close> agree.
  The null pointer is address 0.
\<close>

definition alloc :: "heap \<Rightarrow> int \<Rightarrow> (heap \<times> addr) option" where
  "alloc h size0 =
    (if size0 < 1 then Some (h, 0)
     else
       do {
         size1 \<leftarrow> int_c (size0 + 4);
         size' \<leftarrow> (if size1 mod 8 \<noteq> 0 then int_c (size1 + (8 - size1 mod 8)) else Some size1);
         h0 \<leftarrow> Some (h\<lparr>heap_end := heap_start h + alloc_size h\<rparr>);
         r \<leftarrow> best_fit_loop h0 size' (heap_start h0) 0 INT_MAX;
         case r of
           Returned h1 p \<Rightarrow> Some (h1, p)
         | Finished bestFit \<Rightarrow>
             if bestFit \<noteq> 0 then split_block h0 size' bestFit else Some (h0, 0)
       })"

section \<open>free_block\<close>

text \<open>The two coalescing steps and the closing header and footer updates, in the
  order of the source. Each takes and returns the heap with \<^verbatim>\<open>ptr_header\<close> and
  \<^verbatim>\<open>ptr_size\<close>.\<close>

definition coalesce_next :: "heap \<Rightarrow> addr \<Rightarrow> int \<Rightarrow> (heap \<times> int) option" where
  "coalesce_next h ptr_header ptr_size =
     do {
       next_header \<leftarrow> Some (ptr_header + ptr_size);
       nx \<leftarrow> load h next_header;
       if nx AND 1 = 0 then
         do {
           next_size \<leftarrow> Some (nx AND NOT 3);
           ptr_size' \<leftarrow> int_c (ptr_size + next_size);
           c \<leftarrow> load h ptr_header;
           h1 \<leftarrow> store h ptr_header (ptr_size' OR (c AND 2));
           Some (h1, ptr_size')
         }
       else Some (h, ptr_size)
     }"

definition coalesce_prev :: "heap \<Rightarrow> addr \<Rightarrow> int \<Rightarrow> (heap \<times> addr \<times> int) option" where
  "coalesce_prev h ptr_header ptr_size =
     do {
       c \<leftarrow> load h ptr_header;
       if c AND 2 = 0 then
         do {
           prev_footer \<leftarrow> Some (ptr_header - 4);
           pf \<leftarrow> load h prev_footer;
           prev_header \<leftarrow> Some (ptr_header - pf);
           ptr_size' \<leftarrow> int_c (ptr_size + pf);
           ph \<leftarrow> load h prev_header;
           h1 \<leftarrow> store h prev_header (ptr_size' OR (ph AND 2));
           Some (h1, prev_header, ptr_size')
         }
       else Some (h, ptr_header, ptr_size)
     }"

definition finish_free :: "heap \<Rightarrow> addr \<Rightarrow> int \<Rightarrow> heap option" where
  "finish_free h ptr_header ptr_size =
     do {
       next_header \<leftarrow> Some (ptr_header + ptr_size);
       nx \<leftarrow> load h next_header;
       h1 \<leftarrow> (if nx AND NOT 3 \<noteq> 0 then store h next_header (nx AND NOT 2) else Some h);
       ptr_footer \<leftarrow> Some (ptr_header + ptr_size - 4);
       if ptr_footer < heap_end h1 then store h1 ptr_footer ptr_size else Some h1
     }"

definition free_block :: "heap \<Rightarrow> addr \<Rightarrow> (heap \<times> int) option" where
  "free_block h ptr =
    (if ptr = 0 \<or> ptr mod 8 \<noteq> 0 then Some (h, - 1)
     else
       do {
         h0 \<leftarrow> Some (h\<lparr>heap_end := heap_start h + alloc_size h\<rparr>);
         if ptr < heap_start h0 \<or> ptr \<ge> heap_end h0 then Some (h0, - 1)
         else
           do {
             ptr_header \<leftarrow> Some (ptr - 4);
             hd0 \<leftarrow> load h0 ptr_header;
             if hd0 AND 1 = 0 then Some (h0, - 1)
             else
               do {
                 h1 \<leftarrow> store h0 ptr_header (hd0 AND NOT 1);
                 hd1 \<leftarrow> load h1 ptr_header;
                 ptr_size \<leftarrow> Some (hd1 AND NOT 3);
                 (h2, ptr_size) \<leftarrow> coalesce_next h1 ptr_header ptr_size;
                 (h3, ptr_header, ptr_size) \<leftarrow> coalesce_prev h2 ptr_header ptr_size;
                 h4 \<leftarrow> finish_free h3 ptr_header ptr_size;
                 Some (h4, 0)
               }
           }
       })"

section \<open>init_heap\<close>

text \<open>
  What \<^verbatim>\<open>init_heap\<close> gets from the operating system: the page size, the descriptor
  returned by \<^verbatim>\<open>open\<close> (\<open>- 1\<close> on failure) and the address returned by \<^verbatim>\<open>mmap\<close>
  (\<open>None\<close> for \<^verbatim>\<open>MAP_FAILED\<close>). A successful \<^verbatim>\<open>mmap\<close> of \<^verbatim>\<open>/dev/zero\<close> adds
  \<^verbatim>\<open>alloc_size\<close> zero bytes at that address.
\<close>

record os =
  pagesize :: int
  fd :: int
  mmap_ptr :: "addr option"

definition mmap_zero :: "(addr \<rightharpoonup> int) \<Rightarrow> addr \<Rightarrow> int \<Rightarrow> (addr \<rightharpoonup> int)" where
  "mmap_zero m p len =
     (\<lambda>a. if p \<le> a \<and> a < p + len \<and> (a - p) mod 4 = 0 then Some 0 else m a)"

definition init_heap :: "os \<Rightarrow> heap \<Rightarrow> int \<Rightarrow> (heap \<times> int) option" where
  "init_heap env h sizeOfRegion =
    (if allocated_once h then Some (h, - 1)
     else if sizeOfRegion \<le> 0 then Some (h, - 1)
     else if pagesize env \<le> 0 then None
     else
       do {
         padsize \<leftarrow> Some (sizeOfRegion mod pagesize env);
         padsize \<leftarrow> Some ((pagesize env - padsize) mod pagesize env);
         asz \<leftarrow> int_c (sizeOfRegion + padsize);
         h1 \<leftarrow> Some (h\<lparr>alloc_size := asz\<rparr>);
         if fd env = - 1 then Some (h1, - 1)
         else
           case mmap_ptr env of
             None \<Rightarrow> Some (h1\<lparr>allocated_once := False\<rparr>, - 1)
           | Some p \<Rightarrow>
               do {
                 h2 \<leftarrow> Some (h1\<lparr>mem := mmap_zero (mem h1) p asz, allocated_once := True\<rparr>);
                 asz' \<leftarrow> int_c (asz - 8);
                 h3 \<leftarrow> Some (h2\<lparr>alloc_size := asz', heap_start := p + 4\<rparr>);
                 end_mark \<leftarrow> Some (heap_start h3 + alloc_size h3);
                 h4 \<leftarrow> store h3 end_mark 1;
                 h5 \<leftarrow> store h4 (heap_start h4) (alloc_size h4);
                 v \<leftarrow> load h5 (heap_start h5);
                 w \<leftarrow> int_c (v + 2);
                 h6 \<leftarrow> store h5 (heap_start h5) w;
                 footer \<leftarrow> Some (heap_start h6 + alloc_size h6 - 4);
                 h7 \<leftarrow> store h6 footer (alloc_size h6);
                 Some (h7, 0)
               }
       })"

section \<open>disp_heap\<close>

text \<open>
  The traversal of \<^verbatim>\<open>disp_heap\<close>, without the printing: it steps from \<^verbatim>\<open>heap_start\<close>
  by the size decoded from each header until it reads the end mark 1. The model returns
  the rows it would print (begin address, size, used, previous used) and the address
  at which it stopped.
\<close>

type_synonym row = "addr \<times> int \<times> bool \<times> bool"

partial_function (option) disp_loop :: "heap \<Rightarrow> addr \<Rightarrow> (row list \<times> addr) option" where
  "disp_loop h current =
     do {
       t_size \<leftarrow> load h current;
       if t_size \<noteq> 1 then
         do {
           is_used \<leftarrow> Some (t_size AND 1 \<noteq> 0);
           t_size \<leftarrow> (if is_used then int_c (t_size - 1) else Some t_size);
           p_used \<leftarrow> Some (t_size AND 2 \<noteq> 0);
           t_size \<leftarrow> (if p_used then int_c (t_size - 2) else Some t_size);
           (rows, stop) \<leftarrow> disp_loop h (current + t_size);
           Some ((current, t_size, is_used, p_used) # rows, stop)
         }
       else Some ([], current)
     }"

definition disp_heap :: "heap \<Rightarrow> (row list \<times> addr) option" where
  "disp_heap h = disp_loop h (heap_start h)"


declare best_fit_loop.simps [code]
declare disp_loop.simps [code]

section \<open>Block structure\<close>

text \<open>
  The header word of a block of size \<open>s\<close> (a multiple of 8) with p-bit \<open>p\<close> and a-bit
  \<open>a\<close>, as the comment of \<^verbatim>\<open>blockHeader\<close> gives it: 24 bytes, previous allocated, free is
  26; allocated is 27.
\<close>

definition hdr :: "int \<Rightarrow> bool \<Rightarrow> bool \<Rightarrow> int" where
  "hdr s p a = s + (if p then 2 else 0) + (if a then 1 else 0)"

text \<open>The region size \<^verbatim>\<open>init_heap\<close> asks for: the request rounded up to whole pages.\<close>

definition page_round :: "int \<Rightarrow> int \<Rightarrow> int" where
  "page_round ps n = ((n + ps - 1) div ps) * ps"

text \<open>
  What is assumed of the operating system: a page size that is a multiple of 8 and
  larger than the 8 reserved bytes, and, as POSIX requires of \<^verbatim>\<open>mmap\<close>, a non-null
  result aligned to the page size.
\<close>

definition os_ok :: "os \<Rightarrow> bool" where
  "os_ok env = (8 < pagesize env \<and> pagesize env mod 8 = 0 \<and>
     (case mmap_ptr env of None \<Rightarrow> True | Some p \<Rightarrow> 0 < p \<and> p mod pagesize env = 0))"

text \<open>
  The block structure of a heap is described by the list of its blocks in address
  order, each with its size and whether it is allocated. \<open>blocks_at m a p bs\<close> says that
  memory \<open>m\<close> holds the blocks \<open>bs\<close> one after the other from address \<open>a\<close>, the block
  before \<open>a\<close> being allocated iff \<open>p\<close>: every size is a positive multiple of 8, every
  header is the word \<open>hdr\<close> gives, and every free block ends in a footer holding its
  size. \<open>clean\<close> says that no word inside a block
  that could be taken for a header (those at multiples of 8 from the block's start) has
  its a-bit set: such words are zero from \<^verbatim>\<open>mmap\<close> or are headers of blocks since merged
  away, whose a-bit \<^verbatim>\<open>free_block\<close> cleared first.
\<close>

type_synonym block = "int \<times> bool"

definition clean :: "(addr \<rightharpoonup> int) \<Rightarrow> addr \<Rightarrow> int \<Rightarrow> bool" where
  "clean m a s =
     (\<forall>k\<in>{1..<s div 8}. case m (a + 8 * k) of None \<Rightarrow> False | Some v \<Rightarrow> v AND 1 = 0)"

fun blocks_at :: "(addr \<rightharpoonup> int) \<Rightarrow> addr \<Rightarrow> bool \<Rightarrow> block list \<Rightarrow> bool" where
  "blocks_at m a p [] = True"
| "blocks_at m a p ((s, al) # bs) =
     (0 < s \<and> s mod 8 = 0 \<and> m a = Some (hdr s p al) \<and>
      (al \<or> m (a + s - 4) = Some s) \<and> clean m a s \<and> blocks_at m (a + s) al bs)"

definition total :: "block list \<Rightarrow> int" where
  "total bs = sum_list (map fst bs)"

text \<open>The blocks with their addresses: (header address, size, allocated).\<close>

fun layout :: "addr \<Rightarrow> block list \<Rightarrow> (addr \<times> int \<times> bool) list" where
  "layout a [] = []"
| "layout a ((s, al) # bs) = (a, s, al) # layout (a + s) bs"

fun no_adjacent_free :: "block list \<Rightarrow> bool" where
  "no_adjacent_free (x # y # bs) = ((snd x \<or> snd y) \<and> no_adjacent_free (y # bs))"
| "no_adjacent_free bs = True"

text \<open>
  A well-formed heap with block list \<open>bs\<close>: the invariants of the data model. The chain
  from \<^verbatim>\<open>heap_start\<close> covers \<^verbatim>\<open>alloc_size\<close> bytes and is followed by the end mark 1, the
  first block's p-bit is set, no two neighbours are free, headers lie at addresses that
  are 4 modulo 8 (so payloads are 8-byte aligned), sizes fit an \<^verbatim>\<open>int\<close> with the
  status bits, and every word of the arena is mapped.
\<close>

definition wf_heap :: "heap \<Rightarrow> block list \<Rightarrow> bool" where
  "wf_heap h bs =
     (blocks_at (mem h) (heap_start h) True bs \<and> total bs = alloc_size h \<and>
      mem h (heap_start h + alloc_size h) = Some 1 \<and> no_adjacent_free bs \<and>
      heap_start h mod 8 = 4 \<and> 0 < heap_start h \<and> alloc_size h \<le> INT_MAX - 7 \<and>
      (\<forall>k\<in>{0..<alloc_size h div 4}. mem h (heap_start h + 4 * k) \<noteq> None))"

text \<open>The states a program can be in: after a successful \<^verbatim>\<open>init_heap\<close> from the initial
  globals, and after any call of \<^verbatim>\<open>alloc\<close> or \<^verbatim>\<open>free_block\<close> that returns, whatever
  its argument and result.\<close>

inductive reachable :: "heap \<Rightarrow> bool" where
  reach_init: "os_ok env \<Longrightarrow> init_heap env initial n = Some (h, 0) \<Longrightarrow> reachable h"
| reach_alloc: "reachable h \<Longrightarrow> alloc h n = Some (h', p) \<Longrightarrow> reachable h'"
| reach_free: "reachable h \<Longrightarrow> free_block h p = Some (h', r) \<Longrightarrow> reachable h'"

text \<open>The rows \<^verbatim>\<open>disp_heap\<close> prints for a chain of blocks.\<close>

fun printed :: "addr \<Rightarrow> bool \<Rightarrow> block list \<Rightarrow> row list" where
  "printed a p [] = []"
| "printed a p ((s, al) # bs) = (a, s, al, p) # printed (a + s) al bs"

text \<open>A concrete system for the examples: 4096-byte pages, \<^verbatim>\<open>mmap\<close> returning 65536;
  and the heap after \<^verbatim>\<open>init_heap(4000)\<close> there.\<close>

definition env0 :: os where
  "env0 = \<lparr>pagesize = 4096, fd = 3, mmap_ptr = Some 65536\<rparr>"

definition heap0 :: heap where
  "heap0 = fst (the (init_heap env0 initial 4000))"

text \<open>Whether the block before the end of a chain is allocated: the p-bit of what follows.\<close>

definition last_alloc :: "bool \<Rightarrow> block list \<Rightarrow> bool" where
  "last_alloc p bs = (if bs = [] then p else snd (last bs))"


text \<open>
  The block size \<^verbatim>\<open>alloc\<close> needs for a request, in the words of the specification: the
  requested bytes plus one 4-byte header word, rounded up to the next multiple of 8.
\<close>

definition required :: "int \<Rightarrow> int" where
  "required n = ((n + 4 + 7) div 8) * 8"

text \<open>
  The search loop seen on the block list: \<open>scan a bs sz bf bsz\<close> runs over the blocks \<open>bs\<close>
  that start at address \<open>a\<close> with \<^verbatim>\<open>bestFit = bf\<close> and \<^verbatim>\<open>bestSize = bsz\<close>, and ends with
  \<open>Inl c\<close> when the exact-match branch is taken at the block at \<open>c\<close>, with \<open>Inr bf'\<close> when the
  loop ends with \<^verbatim>\<open>bestFit = bf'\<close>.
\<close>

fun scan :: "addr \<Rightarrow> block list \<Rightarrow> int \<Rightarrow> addr \<Rightarrow> int \<Rightarrow> addr + addr" where
  "scan a [] sz bf bsz = Inr bf"
| "scan a ((s, al) # bs) sz bf bsz =
     (if s < sz then scan (a + s) bs sz bf bsz
      else if \<not> al then
        (if s = sz then Inl a
         else if s < bsz then scan (a + s) bs sz a s
         else scan (a + s) bs sz bf bsz)
      else scan (a + s) bs sz bf bsz)"

text \<open>
  Best fit, in the words of the specification: the block list is \<open>pre\<close>, then a free block
  of size \<open>s\<close>, then \<open>post\<close>; the block is large enough; every free block before it that is
  large enough is strictly larger, and every such block after it is at least as large.
  So the block has the smallest size among the free blocks that fit, and is the first of
  that size in address order.
\<close>

definition best_fit :: "block list \<Rightarrow> int \<Rightarrow> block list \<Rightarrow> int \<Rightarrow> block list \<Rightarrow> bool" where
  "best_fit bs sz pre s post =
     (bs = pre @ (s, False) # post \<and> sz \<le> s \<and>
      (\<forall>(s', al') \<in> set pre. \<not> al' \<and> sz \<le> s' \<longrightarrow> s < s') \<and>
      (\<forall>(s', al') \<in> set post. \<not> al' \<and> sz \<le> s' \<longrightarrow> s \<le> s'))"

text \<open>
  The effect of \<^verbatim>\<open>free_block\<close> on the block list, for the allocated block of size \<open>s\<close> between
  \<open>pre\<close> and \<open>post\<close>: a free block right after it is absorbed first, then the result is
  absorbed into a free block right before it.
\<close>

definition absorb_next :: "int \<Rightarrow> block list \<Rightarrow> int \<times> block list" where
  "absorb_next s post = (case post of (t, False) # post2 \<Rightarrow> (s + t, post2) | _ \<Rightarrow> (s, post))"

definition absorb_prev :: "block list \<Rightarrow> int \<Rightarrow> block list \<times> int" where
  "absorb_prev pre s =
     (if pre \<noteq> [] \<and> \<not> snd (last pre) then (butlast pre, fst (last pre) + s) else (pre, s))"

definition freed :: "block list \<Rightarrow> int \<Rightarrow> block list \<Rightarrow> block list" where
  "freed pre s post =
     (let (s1, post') = absorb_next s post; (pre', s2) = absorb_prev pre s1
      in pre' @ (s2, False) # post')"

text \<open>
  An arena with free blocks of 16, 40 and 24 bytes, each followed by an allocated
  block, at the addresses of \<open>heap0\<close>; and the same arena with the 24-byte block in use.
\<close>

definition blocks_ex :: "block list" where
  "blocks_ex = [(16, False), (8, True), (40, False), (8, True), (24, False), (24, True)]"

definition heap_ex :: heap where
  "heap_ex = \<lparr>mem = (mmap_zero Map.empty 65536 128)
       (65540 \<mapsto> 18, 65552 \<mapsto> 16, 65556 \<mapsto> 9, 65564 \<mapsto> 42, 65600 \<mapsto> 40, 65604 \<mapsto> 9,
        65612 \<mapsto> 26, 65632 \<mapsto> 24, 65636 \<mapsto> 25, 65660 \<mapsto> 1),
     heap_start = 65540, alloc_size = 120, heap_end = 65660, allocated_once = True\<rparr>"

definition blocks_ex2 :: "block list" where
  "blocks_ex2 = [(16, False), (8, True), (40, False), (8, True), (24, True), (24, True)]"

definition heap_ex2 :: heap where
  "heap_ex2 = heap_ex\<lparr>mem := (mem heap_ex)(65612 \<mapsto> 27, 65636 \<mapsto> 27)\<rparr>"

text \<open>The heap after \<^verbatim>\<open>alloc(8)\<close> on \<open>heap0\<close>, and after freeing that block again.\<close>

definition heap1 :: heap where
  "heap1 = fst (the (alloc heap0 8))"

definition heap2 :: heap where
  "heap2 = fst (the (free_block heap1 65544))"

text \<open>Rows that follow one another from address \<open>a\<close> to address \<open>e\<close>: each begins where
  the one before ends and has a positive size, so they neither overlap nor leave a gap.\<close>

fun contiguous :: "addr \<Rightarrow> row list \<Rightarrow> addr \<Rightarrow> bool" where
  "contiguous a [] e = (a = e)"
| "contiguous a ((b, s, used, p_used) # rows) e = (b = a \<and> 0 < s \<and> contiguous (a + s) rows e)"

text \<open>The size and status of each printed row.\<close>

definition row_blocks :: "row list \<Rightarrow> block list" where
  "row_blocks rows = map (\<lambda>(b, s, used, p_used). (s, used)) rows"

text \<open>The heap after \<^verbatim>\<open>alloc(20)\<close> on \<open>heap_ex2\<close>, which splits the 40-byte block.\<close>

definition heap_ex3 :: heap where
  "heap_ex3 = fst (the (alloc heap_ex2 20))"

section \<open>Bit operations on header words\<close>

lemma and3: "(x::int) AND 3 = x mod 4"
  using take_bit_eq_mod[of 2 x] by (simp add: take_bit_eq_mask mask_eq_exp_minus_1)

lemma and1: "(x::int) AND 1 = x mod 2"
  by (simp add: and_one_eq)

lemma and2: "(x::int) AND 2 = x mod 4 - x mod 2"
proof -
  have "x AND 2 = 2 * ((x div 2) mod 2)"
    using and_int_rec[of x 2] by (simp add: and_one_eq)
  then show ?thesis by presburger
qed

lemma and_not_diff: "(x::int) AND NOT y = x - (x AND y)"
proof -
  have d: "(x AND y) AND (x AND NOT y) = 0"
    by (auto simp add: bit_eq_iff bit_and_iff bit_not_iff)
  have "(x AND y) OR (x AND NOT y) = x"
    by (auto simp add: bit_eq_iff bit_and_iff bit_or_iff bit_not_iff)
  with disjunctive_add_eq_or[OF d] show ?thesis by simp
qed

lemma or_and2:
  assumes "(s::int) mod 4 = 0"
  shows "s OR (x AND 2) = s + (x AND 2)"
proof -
  have "s AND 2 = 0" unfolding and2 using assms by presburger
  then have "s AND (x AND 2) = 0"
    by (metis and.left_commute and_zero_eq)
  then show ?thesis by (simp add: disjunctive_add_eq_or)
qed

lemma hdr_size: "s mod 8 = 0 \<Longrightarrow> hdr s p a AND NOT 3 = s"
  unfolding hdr_def and_not_diff and3 by (cases p; cases a; simp; presburger)

lemma hdr_abit [simp]: "s mod 8 = 0 \<Longrightarrow> hdr s p a AND 1 = (if a then 1 else 0)"
  unfolding hdr_def and1 by (cases p; cases a; simp; presburger)

lemma hdr_pbit [simp]: "s mod 8 = 0 \<Longrightarrow> hdr s p a AND 2 = (if p then 2 else 0)"
  unfolding hdr_def and2 by (cases p; cases a; simp; presburger)

lemma hdr_clear_a: "s mod 8 = 0 \<Longrightarrow> hdr s p a AND NOT 1 = hdr s p False"
  unfolding hdr_def and_not_diff and1 by (cases p; cases a; simp; presburger)

lemma hdr_clear_p: "s mod 8 = 0 \<Longrightarrow> hdr s p a AND NOT 2 = hdr s False a"
  unfolding hdr_def and_not_diff and2 by (cases p; cases a; simp; presburger)

text \<open>The same with the masks as the simplifier writes them: \<open>NOT 3 = - 4\<close>,
  \<open>NOT 1 = - 2\<close>, \<open>NOT 2 = - 3\<close>.\<close>

lemma hdr_size' [simp]: "s mod 8 = 0 \<Longrightarrow> hdr s p a AND - 4 = s"
  using hdr_size[of s p a] by simp

lemma hdr_clear_a' [simp]: "s mod 8 = 0 \<Longrightarrow> hdr s p a AND - 2 = hdr s p False"
  using hdr_clear_a[of s p a] by simp

lemma hdr_clear_p' [simp]: "s mod 8 = 0 \<Longrightarrow> hdr s p a AND - 3 = hdr s False a"
  using hdr_clear_p[of s p a] by simp

lemma hdr_or_p [simp]:
  assumes "s mod 8 = 0" and "t mod 8 = 0"
  shows "s OR (hdr t p a AND 2) = hdr s p False"
proof -
  have "s mod 4 = 0" using assms(1) by presburger
  from or_and2[OF this, of "hdr t p a"] show ?thesis
    by (simp add: assms(2)) (simp add: hdr_def)
qed

section \<open>Initialisation and traversal\<close>

lemma page_round_eq:
  assumes "0 < ps" 
  shows "n + (ps - n mod ps) mod ps = page_round ps n"
proof (cases "n mod ps = 0")
  case True
  then have "ps dvd n" by (simp add: mod_eq_0_iff_dvd)
  then obtain q where q: "n = q * ps" by (metis dvd_def mult.commute)
  have "(q * ps + (ps - 1)) div ps = q" using assms by simp
  then show ?thesis using True q by (simp add: page_round_def algebra_simps)
next
  case False
  define r where "r = n mod ps"
  define q where "q = n div ps"
  have n: "n = q * ps + r" by (simp add: q_def r_def)
  have "0 \<le> r" "r < ps" using assms by (simp_all add: r_def)
  then have r: "0 < r" "r < ps" using False by (simp_all add: r_def)
  have a: "(ps - n mod ps) mod ps = ps - r"
    unfolding r_def[symmetric] by (rule mod_pos_pos_trivial) (use r in auto)
  have b: "(n + ps - 1) div ps = q + 1"
  proof -
    have e: "n + ps - 1 = (q + 1) * ps + (r - 1)" by (simp add: n algebra_simps)
    have "((q + 1) * ps + (r - 1)) div ps = q + 1"
      using r assms by (simp add: div_pos_pos_trivial)
    then show ?thesis unfolding e .
  qed
  have c: "n + (ps - r) = (q + 1) * ps" by (simp add: n algebra_simps)
  show ?thesis unfolding page_round_def a b c ..
qed

lemma page_round_eq': "0 < ps \<Longrightarrow> n + - (n mod ps) mod ps = page_round ps n"
  using page_round_eq[of ps n] by simp

lemma init_heap_result:
  assumes os: "os_ok env" and first: "\<not> allocated_once h0"
    and ok: "init_heap env h0 n = Some (h, 0)"
  shows "\<exists>p. mmap_ptr env = Some p \<and> 0 < n \<and> page_round (pagesize env) n \<le> INT_MAX \<and>
    mem h = (mmap_zero (mem h0) p (page_round (pagesize env) n))
                (p + 4 + (page_round (pagesize env) n - 8) \<mapsto> 1,
                 p + 4 \<mapsto> page_round (pagesize env) n - 8 + 2,
                 p + 4 + (page_round (pagesize env) n - 8) - 4 \<mapsto> page_round (pagesize env) n - 8) \<and>
    heap_start h = p + 4 \<and> alloc_size h = page_round (pagesize env) n - 8 \<and>
    allocated_once h \<and> heap_end h = heap_end h0"
  using assms
  apply (simp add: init_heap_def os_ok_def split: if_splits option.splits bind_splits)
  apply (auto simp add: int_c_def store_def load_def page_round_eq' split: if_splits)
  done


lemma total_Nil [simp]: "total [] = 0"
  by (simp add: total_def)

lemma total_Cons [simp]: "total ((s, al) # bs) = s + total bs"
  by (simp add: total_def)

lemma total_append [simp]: "total (xs @ ys) = total xs + total ys"
  by (simp add: total_def)

lemma blocks_at_total_nonneg: "blocks_at m a p bs \<Longrightarrow> 0 \<le> total bs"
  by (induction bs arbitrary: a p) auto

lemma hdr_neq_1: "0 < s \<Longrightarrow> s mod 8 = 0 \<Longrightarrow> hdr s p a \<noteq> 1"
  by (auto simp: hdr_def)

lemma hdr_bounds: "0 < s \<Longrightarrow> s \<le> INT_MAX - 7 \<Longrightarrow> int_c (hdr s p a) = Some (hdr s p a)"
  by (auto simp: hdr_def int_c_def INT_MAX_def INT_MIN_def)

lemma hdr_minus_a: "hdr s p True - 1 = hdr s p False"
  by (simp add: hdr_def)

lemma hdr_minus_p: "hdr s True False - 2 = s"
  by (simp add: hdr_def)

lemma hdr_FF: "hdr s False False = s"
  by (simp add: hdr_def)

lemma mult8_bits:
  assumes "(s::int) mod 8 = 0"
  shows "s AND 1 = 0" and "s AND 2 = 0" and "s AND - 4 = s"
  using hdr_abit[OF assms, of False False] hdr_pbit[OF assms, of False False]
    hdr_size'[OF assms, of False False] by (simp_all add: hdr_FF)

lemma disp_loop_blocks:
  assumes "blocks_at (mem h) a p bs" and "mem h (a + total bs) = Some 1"
    and "total bs \<le> INT_MAX - 7"
  shows "disp_loop h a = Some (printed a p bs, a + total bs)"
  using assms
proof (induction bs arbitrary: a p)
  case Nil
  then show ?case by (subst disp_loop.simps) (simp add: load_def)
next
  case (Cons b bs)
  obtain s al where b: "b = (s, al)" by (cases b)
  from Cons.prems have s: "0 < s" "s mod 8 = 0" and hd: "mem h a = Some (hdr s p al)"
    and rest: "blocks_at (mem h) (a + s) al bs" by (simp_all add: b)
  have nn: "0 \<le> total bs" using rest by (rule blocks_at_total_nonneg)
  have sb: "s \<le> INT_MAX - 7" using Cons.prems(3) nn by (simp add: b)
  have IH: "disp_loop h (a + s) = Some (printed (a + s) al bs, a + s + total bs)"
    using Cons.IH[OF rest] Cons.prems(2,3) s nn by (simp add: b add.assoc)
  show ?case
    apply (subst disp_loop.simps)
    using s hd IH sb
    apply (cases al; cases p)
    apply (simp_all add: load_def b hdr_neq_1 hdr_minus_a hdr_minus_p hdr_bounds add.assoc)
    apply (simp_all add: hdr_FF mult8_bits int_c_def INT_MAX_def INT_MIN_def)
    done
qed

lemma page_round_dvd: "ps dvd page_round ps n"
  by (simp add: page_round_def)

lemma page_round_ge:
  assumes "0 < ps" and "0 < n"
  shows "ps \<le> page_round ps n"
proof -
  have "ps div ps \<le> (n + ps - 1) div ps"
    by (rule zdiv_mono1) (use assms in auto)
  then have "1 \<le> (n + ps - 1) div ps" using assms by simp
  then have "1 * ps \<le> ((n + ps - 1) div ps) * ps"
    using assms by (intro mult_right_mono) auto
  then show ?thesis by (simp add: page_round_def)
qed

lemma init_heap_wf:
  assumes os: "os_ok env" and first: "\<not> allocated_once h0"
    and ok: "init_heap env h0 n = Some (h, 0)"
  shows "wf_heap h [(alloc_size h, False)]"
proof -
  define R where "R = page_round (pagesize env) n"
  from init_heap_result[OF assms] obtain p where p: "mmap_ptr env = Some p" and n: "0 < n"
    and R: "R \<le> INT_MAX"
    and m: "mem h = (mmap_zero (mem h0) p R)(p + 4 + (R - 8) \<mapsto> 1, p + 4 \<mapsto> R - 8 + 2,
         p + 4 + (R - 8) - 4 \<mapsto> R - 8)"
    and hs: "heap_start h = p + 4" and as: "alloc_size h = R - 8"
    unfolding R_def by blast
  have ps: "8 < pagesize env" "pagesize env mod 8 = 0" and pp: "0 < p" "p mod pagesize env = 0"
    using os p by (simp_all add: os_ok_def)
  have "pagesize env dvd R" unfolding R_def by (rule page_round_dvd)
  then have R8: "R mod 8 = 0" using ps(2) by (metis dvd_trans mod_eq_0_iff_dvd)
  have "pagesize env \<le> R" unfolding R_def by (rule page_round_ge) (use ps n in auto)
  then have Rg: "16 \<le> R" using ps(1) R8 by presburger
  have p8: "p mod 8 = 0" using pp(2) ps(2) by (metis dvd_trans mod_eq_0_iff_dvd)
  have cl: "clean (mem h) (p + 4) (R - 8)"
    unfolding clean_def
  proof
    fix k assume "k \<in> {1..<(R - 8) div 8}"
    then have k: "1 \<le> k" "8 * k < R - 8" using R8 by auto
    have "mem h (p + 4 + 8 * k) = Some 0"
      using k R8 by (auto simp: m mmap_zero_def) presburger+
    then show "case mem h (p + 4 + 8 * k) of None \<Rightarrow> False | Some v \<Rightarrow> v AND 1 = 0"
      by simp
  qed
  have mp: "\<forall>k\<in>{0..<(R - 8) div 4}. mem h (p + 4 + 4 * k) \<noteq> None"
  proof
    fix k assume "k \<in> {0..<(R - 8) div 4}"
    then have "0 \<le> k" "4 * k < R - 8" using R8 by auto
    then show "mem h (p + 4 + 4 * k) \<noteq> None"
      by (auto simp: m mmap_zero_def)
  qed
  show ?thesis
    unfolding wf_heap_def hs as
    using Rg R8 p8 pp(1) R cl mp
    by (auto simp: m hdr_def) (presburger+)?
qed


lemma page_round_least:
  assumes "0 < ps"
  shows "n \<le> page_round ps n \<and> page_round ps n < n + ps"
proof -
  have "page_round ps n = n + (ps - n mod ps) mod ps"
    using page_round_eq[OF assms] by simp
  moreover have "0 \<le> (ps - n mod ps) mod ps" "(ps - n mod ps) mod ps < ps"
    using assms by simp_all
  ultimately show ?thesis by linarith
qed

text \<open>
  C8. A successful call of \<^verbatim>\<open>init_heap\<close> on a heap not yet initialised leaves one free
  block of the page-rounded region size minus 8: its header has a-bit 0 and p-bit 1, its
  footer holds its size, and the word right after it is the end mark 1. The traversal of
  \<^verbatim>\<open>disp_heap\<close> sees exactly this one block and stops on the end mark.
\<close>

theorem init_heap_one_free_block:
  assumes "os_ok env" and "\<not> allocated_once h0" and "init_heap env h0 n = Some (h, 0)"
  shows "alloc_size h = page_round (pagesize env) n - 8 \<and>
    mem h (heap_start h) = Some (hdr (alloc_size h) True False) \<and>
    mem h (heap_start h + alloc_size h - 4) = Some (alloc_size h) \<and>
    mem h (heap_start h + alloc_size h) = Some 1 \<and>
    disp_heap h =
      Some ([(heap_start h, alloc_size h, False, True)], heap_start h + alloc_size h)"
proof -
  have wf: "wf_heap h [(alloc_size h, False)]"
    using assms by (rule init_heap_wf)
  have sz: "alloc_size h = page_round (pagesize env) n - 8"
    using init_heap_result[OF assms] by auto
  have "disp_loop h (heap_start h) =
      Some (printed (heap_start h) True [(alloc_size h, False)],
            heap_start h + total [(alloc_size h, False)])"
    by (rule disp_loop_blocks) (use wf in \<open>simp_all add: wf_heap_def\<close>)
  then have "disp_heap h =
      Some ([(heap_start h, alloc_size h, False, True)], heap_start h + alloc_size h)"
    by (simp add: disp_heap_def)
  with wf sz show ?thesis by (simp add: wf_heap_def)
qed

lemma env0_ok: "os_ok env0"
  by (simp add: os_ok_def env0_def)

lemma init_heap0: "init_heap env0 initial 4000 = Some (heap0, 0)"
proof -
  have "map_option snd (init_heap env0 initial 4000) = Some 0"
    by (simp add: init_heap_def env0_def initial_def int_c_def INT_MAX_def INT_MIN_def
        store_def load_def mmap_zero_def)
  then show ?thesis by (auto simp: heap0_def)
qed

lemma heap0_start: "heap_start heap0 = 65540"
  using init_heap_result[OF env0_ok _ init_heap0] by (simp add: initial_def env0_def)

theorem init_heap_one_free_block_witness:
  "os_ok env0 \<and> \<not> allocated_once initial \<and> init_heap env0 initial 4000 = Some (heap0, 0) \<and>
   alloc_size heap0 = 4088 \<and> mem heap0 65540 = Some 4090 \<and> mem heap0 69624 = Some 4088 \<and>
   mem heap0 69628 = Some 1 \<and>
   disp_heap heap0 = Some ([(65540, 4088, False, True)], 69628)"
proof -
  have i: "\<not> allocated_once initial" by (simp add: initial_def)
  note r = init_heap_one_free_block[OF env0_ok i init_heap0]
  have a: "alloc_size heap0 = 4088"
    using r by (simp add: env0_def page_round_def)
  show ?thesis
    using r env0_ok init_heap0 i by (simp add: a heap0_start hdr_def)
qed

section \<open>Chains of blocks\<close>

lemma last_alloc_simps [simp]:
  "last_alloc p [] = p"
  "last_alloc p ((s, al) # bs) = last_alloc al bs"
  "last_alloc p (bs @ [(s, al)]) = al"
  by (simp_all add: last_alloc_def)

lemma blocks_at_append:
  "blocks_at m a p (xs @ ys) \<longleftrightarrow>
     blocks_at m a p xs \<and> blocks_at m (a + total xs) (last_alloc p xs) ys"
  by (induction xs arbitrary: a p) (auto simp: add.assoc)

lemma slot_index: "s mod 8 = 0 \<Longrightarrow> k < s div 8 \<longleftrightarrow> 8 * k < (s::int)"
  by presburger

lemma clean_iff:
  assumes "s mod 8 = 0"
  shows "clean m a s \<longleftrightarrow>
    (\<forall>k. 0 < k \<and> 8 * k < s \<longrightarrow> (\<exists>v. m (a + 8 * k) = Some v \<and> v AND 1 = 0))"
proof
  assume c: "clean m a s"
  show "\<forall>k. 0 < k \<and> 8 * k < s \<longrightarrow> (\<exists>v. m (a + 8 * k) = Some v \<and> v AND 1 = 0)"
  proof (intro allI impI)
    fix k assume "0 < k \<and> 8 * k < s"
    then have "k \<in> {1..<s div 8}" using slot_index[OF assms, of k] by auto
    with c have "case m (a + 8 * k) of None \<Rightarrow> False | Some v \<Rightarrow> v AND 1 = 0"
      unfolding clean_def by blast
    then show "\<exists>v. m (a + 8 * k) = Some v \<and> v AND 1 = 0"
      by (cases "m (a + 8 * k)") auto
  qed
next
  assume r: "\<forall>k. 0 < k \<and> 8 * k < s \<longrightarrow> (\<exists>v. m (a + 8 * k) = Some v \<and> v AND 1 = 0)"
  show "clean m a s"
    unfolding clean_def
  proof
    fix k assume "k \<in> {1..<s div 8}"
    then have "0 < k \<and> 8 * k < s" using slot_index[OF assms, of k] by auto
    with r show "case m (a + 8 * k) of None \<Rightarrow> False | Some v \<Rightarrow> v AND 1 = 0"
      by (auto split: option.splits)
  qed
qed

lemma clean_cong:
  assumes "clean m a s" and "\<And>x. a < x \<Longrightarrow> x < a + s \<Longrightarrow> m' x = m x"
  shows "clean m' a s"
  unfolding clean_def
proof
  fix k assume k: "k \<in> {1..<s div 8}"
  then have "0 < 8 * k" "8 * k < s" by auto
  then have "m' (a + 8 * k) = m (a + 8 * k)" by (intro assms(2)) auto
  with assms(1) k show "case m' (a + 8 * k) of None \<Rightarrow> False | Some v \<Rightarrow> v AND 1 = 0"
    by (auto simp: clean_def)
qed

lemma clean_upd_even: "clean m a s \<Longrightarrow> v AND 1 = 0 \<Longrightarrow> clean (m(x \<mapsto> v)) a s"
  by (auto simp: clean_def split: option.splits)

lemma clean_upd_out:
  assumes "clean m a s" and "x \<le> a \<or> a + s \<le> x \<or> (x - a) mod 8 \<noteq> 0"
  shows "clean (m(x \<mapsto> v)) a s"
  unfolding clean_def
proof
  fix k assume k: "k \<in> {1..<s div 8}"
  then have "0 < 8 * k" "8 * k < s" by auto
  moreover have "(a + 8 * k - a) mod 8 = 0" by simp
  ultimately have "a + 8 * k \<noteq> x" using assms(2) by auto
  with assms(1) k show "case (m(x \<mapsto> v)) (a + 8 * k) of None \<Rightarrow> False | Some v \<Rightarrow> v AND 1 = 0"
    by (auto simp: clean_def)
qed

lemma blocks_at_cong:
  assumes "blocks_at m a p bs" and "\<And>x. a \<le> x \<Longrightarrow> x < a + total bs \<Longrightarrow> m' x = m x"
  shows "blocks_at m' a p bs"
  using assms
proof (induction bs arbitrary: a p)
  case Nil
  then show ?case by simp
next
  case (Cons b bs)
  obtain s al where b: "b = (s, al)" by (cases b)
  from Cons.prems(1) have s: "0 < s" "s mod 8 = 0" and h: "m a = Some (hdr s p al)"
    and f: "al \<or> m (a + s - 4) = Some s"
    and c: "clean m a s" and r: "blocks_at m (a + s) al bs"
    by (simp_all add: b)
  have nn: "0 \<le> total bs" using r by (rule blocks_at_total_nonneg)
  have s8: "8 \<le> s" using s by presburger
  have eq: "\<And>x. a \<le> x \<Longrightarrow> x < a + s + total bs \<Longrightarrow> m' x = m x"
    using Cons.prems(2) by (simp add: b add.assoc)
  have "m' a = m a" "m' (a + s - 4) = m (a + s - 4)"
    using s8 nn by (auto intro!: eq)
  moreover have "clean m' a s"
    using c by (rule clean_cong) (use nn in \<open>auto intro!: eq\<close>)
  moreover have "blocks_at m' (a + s) al bs"
    using r by (rule Cons.IH) (use s in \<open>auto intro!: eq\<close>)
  ultimately show ?case using s h f by (simp add: b)
qed

lemma blocks_at_upd_out:
  assumes "blocks_at m a p bs" and "x < a \<or> a + total bs \<le> x"
  shows "blocks_at (m(x \<mapsto> v)) a p bs"
  using assms(1) by (rule blocks_at_cong) (use assms(2) in auto)

lemma pos_mult8: "0 < (s::int) \<Longrightarrow> s mod 8 = 0 \<Longrightarrow> 8 \<le> s"
  by presburger

lemma blocks_at_size_ge8:
  "blocks_at m a p bs \<Longrightarrow> (s, al) \<in> set bs \<Longrightarrow> 8 \<le> s \<and> s mod 8 = 0"
  by (induction m a p bs rule: blocks_at.induct) (auto simp: pos_mult8)

lemma blocks_at_total_mod8: "blocks_at m a p bs \<Longrightarrow> total bs mod 8 = 0"
proof (induction m a p bs rule: blocks_at.induct)
  case (1 m a p)
  then show ?case by simp
next
  case (2 m a p s al bs)
  then have "s mod 8 = 0" "total bs mod 8 = 0" by simp_all
  then have "(s + total bs) mod 8 = 0" by presburger
  then show ?case by simp
qed

section \<open>The best-fit search\<close>

lemma round8:
  fixes k :: int
  shows "((k + 7) div 8) * 8 = (if k mod 8 = 0 then k else k + (8 - k mod 8))"
proof -
  define q where "q = k div 8"
  define m where "m = k mod 8"
  have k: "k = 8 * q + m" and m: "0 \<le> m" "m < 8" by (simp_all add: q_def m_def)
  show ?thesis
  proof (cases "m = 0")
    case True
    have "(8 * q + 7) div 8 = q" by simp
    then have d: "(k + 7) div 8 = q" using k True by simp
    show ?thesis unfolding d m_def[symmetric] using True k by simp
  next
    case False
    have e: "k + 7 = 8 * (q + 1) + (m - 1)" using k by simp
    have "(8 * (q + 1) + (m - 1)) div 8 = q + 1"
      using m False by (simp add: div_pos_pos_trivial)
    then have d: "(k + 7) div 8 = q + 1" unfolding e .
    show ?thesis unfolding d m_def[symmetric] using False k by simp
  qed
qed

lemma required_eq:
  "required n = (if (n + 4) mod 8 = 0 then n + 4 else n + 4 + (8 - (n + 4) mod 8))"
  unfolding required_def by (rule round8)

lemma required_props: "required n mod 8 = 0" "n + 4 \<le> required n" "required n < n + 12"
proof -
  show "required n mod 8 = 0" by (simp add: required_def)
  have "0 \<le> (n + 4) mod 8" "(n + 4) mod 8 < 8" by simp_all
  then show "n + 4 \<le> required n" "required n < n + 12"
    unfolding required_eq by (auto split: if_splits)
qed

lemma required_calc:
  assumes "1 \<le> n"
  shows "(int_c (n + 4) \<bind>
           (\<lambda>size1. if size1 mod 8 \<noteq> 0 then int_c (size1 + (8 - size1 mod 8)) else Some size1)) =
         (if required n \<le> INT_MAX then Some (required n) else None)"
proof (cases "n + 4 \<le> INT_MAX")
  case True
  then have "int_c (n + 4) = Some (n + 4)"
    using assms by (simp add: int_c_def INT_MIN_def INT_MAX_def)
  moreover have "0 \<le> (n + 4) mod 8" by simp
  ultimately show ?thesis
    using assms True unfolding required_eq
    by (simp add: int_c_def INT_MIN_def INT_MAX_def)
next
  case False
  then have "int_c (n + 4) = None" by (simp add: int_c_def)
  moreover have "\<not> required n \<le> INT_MAX" using False required_props(2)[of n] by linarith
  ultimately show ?thesis by simp
qed

lemma best_fit_loop_scan:
  assumes "blocks_at (mem h) a p bs" and "a + total bs = heap_end h"
  shows "best_fit_loop h sz a bf bsz =
    (case scan a bs sz bf bsz of
       Inl c \<Rightarrow> exact_match h c (c + sz)
     | Inr b \<Rightarrow> Some (Finished b))"
  using assms
proof (induction bs arbitrary: a p bf bsz)
  case Nil
  then show ?case by (subst best_fit_loop.simps) simp
next
  case (Cons b bs)
  obtain s al where b: "b = (s, al)" by (cases b)
  from Cons.prems have s: "0 < s" "s mod 8 = 0" and hd: "mem h a = Some (hdr s p al)"
    and rest: "blocks_at (mem h) (a + s) al bs" by (simp_all add: b)
  have nn: "0 \<le> total bs" using rest by (rule blocks_at_total_nonneg)
  have lt: "a < heap_end h" using Cons.prems(2) s nn by (simp add: b)
  have e: "a + s + total bs = heap_end h" using Cons.prems(2) by (simp add: b)
  note IH = Cons.IH[OF rest e]
  show ?case
    apply (subst best_fit_loop.simps)
    using s hd lt
    apply (simp add: load_def b hdr_neq_1 IH)
    done
qed


lemma best_fit_Cons:
  "best_fit bs sz pre s post \<Longrightarrow> (\<not> al \<and> sz \<le> t \<longrightarrow> s < t) \<Longrightarrow>
   best_fit ((t, al) # bs) sz ((t, al) # pre) s post"
  by (auto simp: best_fit_def)

lemma best_fit_head:
  "sz \<le> s \<Longrightarrow> (\<forall>(s', al') \<in> set bs. \<not> al' \<and> sz \<le> s' \<longrightarrow> s \<le> s') \<Longrightarrow>
   best_fit ((s, False) # bs) sz [] s bs"
  by (auto simp: best_fit_def)

lemma scan_Inl:
  "scan a bs sz bf bsz = Inl c \<Longrightarrow>
   \<exists>pre post. best_fit bs sz pre sz post \<and> c = a + total pre"
proof (induction bs arbitrary: a bf bsz)
  case Nil
  then show ?case by simp
next
  case (Cons x bs)
  obtain s al where x: "x = (s, al)" by (cases x)
  show ?case
  proof (cases "\<not> al \<and> s = sz")
    case True
    then have "best_fit (x # bs) sz [] sz bs" unfolding x
      by (auto simp: best_fit_def)
    moreover have "c = a" using Cons.prems True by (simp add: x)
    ultimately show ?thesis by (intro exI[of _ "[]"] exI[of _ bs]) simp
  next
    case False
    then obtain bf' bsz' where "scan (a + s) bs sz bf' bsz' = Inl c"
      using Cons.prems by (auto simp: x split: if_splits)
    from Cons.IH[OF this] obtain pre post where
      p: "best_fit bs sz pre sz post" "c = a + s + total pre" by blast
    have "best_fit (x # bs) sz ((s, al) # pre) sz post" unfolding x
      using p(1) False by (intro best_fit_Cons) auto
    then show ?thesis using p(2) by (intro exI[of _ "(s, al) # pre"] exI[of _ post]) simp
  qed
qed

lemma scan_Inr:
  "scan a bs sz bf bsz = Inr b \<Longrightarrow>
   (b = bf \<and> (\<forall>(s', al') \<in> set bs. \<not> al' \<and> sz \<le> s' \<longrightarrow> bsz \<le> s')) \<or>
   (\<exists>pre s post. best_fit bs sz pre s post \<and> b = a + total pre \<and> sz < s \<and> s < bsz)"
proof (induction bs arbitrary: a bf bsz)
  case Nil
  then show ?case by simp
next
  case (Cons x bs)
  obtain s al where x: "x = (s, al)" by (cases x)
  consider (skip) "s < sz \<or> al" | (exact) "\<not> al" "s = sz"
    | (better) "\<not> al" "sz < s" "s < bsz" | (worse) "\<not> al" "sz < s" "\<not> s < bsz"
    by fastforce
  then show ?case
  proof cases
    case skip
    then have "scan (a + s) bs sz bf bsz = Inr b"
      using Cons.prems by (auto simp: x split: if_splits)
    from Cons.IH[OF this] show ?thesis
    proof
      assume "b = bf \<and> (\<forall>(s', al') \<in> set bs. \<not> al' \<and> sz \<le> s' \<longrightarrow> bsz \<le> s')"
      then show ?thesis using skip by (auto simp: x)
    next
      assume "\<exists>pre s' post. best_fit bs sz pre s' post \<and> b = a + s + total pre \<and> sz < s' \<and> s' < bsz"
      then obtain pre s' post where p: "best_fit bs sz pre s' post" "b = a + s + total pre"
        "sz < s'" "s' < bsz" by blast
      have "best_fit (x # bs) sz ((s, al) # pre) s' post" unfolding x
        using p(1) skip by (intro best_fit_Cons) auto
      then show ?thesis using p by (intro disjI2 exI[of _ "(s, al) # pre"] exI[of _ s'] exI[of _ post]) simp
    qed
  next
    case exact
    then show ?thesis using Cons.prems by (simp add: x)
  next
    case better
    then have "scan (a + s) bs sz a s = Inr b"
      using Cons.prems by (auto simp: x split: if_splits)
    from Cons.IH[OF this] show ?thesis
    proof
      assume a: "b = a \<and> (\<forall>(s', al') \<in> set bs. \<not> al' \<and> sz \<le> s' \<longrightarrow> s \<le> s')"
      then have "best_fit (x # bs) sz [] s bs" unfolding x using better
        by (auto simp: best_fit_def)
      then show ?thesis using a better by (intro disjI2 exI[of _ "[]"] exI[of _ s] exI[of _ bs]) simp
    next
      assume "\<exists>pre s' post. best_fit bs sz pre s' post \<and> b = a + s + total pre \<and> sz < s' \<and> s' < s"
      then obtain pre s' post where p: "best_fit bs sz pre s' post" "b = a + s + total pre"
        "sz < s'" "s' < s" by blast
      have "best_fit (x # bs) sz ((s, al) # pre) s' post" unfolding x
        using p(1,4) by (intro best_fit_Cons) auto
      then show ?thesis using p better
        by (intro disjI2 exI[of _ "(s, al) # pre"] exI[of _ s'] exI[of _ post]) simp
    qed
  next
    case worse
    then have "scan (a + s) bs sz bf bsz = Inr b"
      using Cons.prems by (auto simp: x split: if_splits)
    from Cons.IH[OF this] show ?thesis
    proof
      assume "b = bf \<and> (\<forall>(s', al') \<in> set bs. \<not> al' \<and> sz \<le> s' \<longrightarrow> bsz \<le> s')"
      then show ?thesis using worse by (auto simp: x)
    next
      assume "\<exists>pre s' post. best_fit bs sz pre s' post \<and> b = a + s + total pre \<and> sz < s' \<and> s' < bsz"
      then obtain pre s' post where p: "best_fit bs sz pre s' post" "b = a + s + total pre"
        "sz < s'" "s' < bsz" by blast
      have "best_fit (x # bs) sz ((s, al) # pre) s' post" unfolding x
        using p(1,4) worse by (intro best_fit_Cons) auto
      then show ?thesis using p
        by (intro disjI2 exI[of _ "(s, al) # pre"] exI[of _ s'] exI[of _ post]) simp
    qed
  qed
qed

section \<open>Updating a chain\<close>

lemma clean_prefix:
  assumes "clean m a s" and "s mod 8 = 0" and "t mod 8 = 0" and "t \<le> s"
  shows "clean m a t"
  using assms by (simp add: clean_iff)

lemma clean_suffix:
  assumes "clean m a s" and "s mod 8 = 0" and "t mod 8 = 0" and "0 \<le> t"
  shows "clean m (a + t) (s - t)"
proof -
  have s': "(s - t) mod 8 = 0" using assms(2,3) by presburger
  show ?thesis unfolding clean_iff[OF s']
  proof (intro allI impI)
    fix k assume k: "0 < k \<and> 8 * k < s - t"
    obtain j where j: "t = 8 * j" using assms(3) by (auto simp: mod_eq_0_iff_dvd)
    have "0 < k + j \<and> 8 * (k + j) < s" using k j assms(4) by auto
    with assms(1) have "\<exists>v. m (a + 8 * (k + j)) = Some v \<and> v AND 1 = 0"
      unfolding clean_iff[OF assms(2)] by blast
    then show "\<exists>v. m (a + t + 8 * k) = Some v \<and> v AND 1 = 0"
      by (simp add: j algebra_simps)
  qed
qed

lemma clean_join:
  assumes "clean m a s" and "clean m (a + s) t" and "m (a + s) = Some v" and "v AND 1 = 0"
    and "s mod 8 = 0" and "t mod 8 = 0"
  shows "clean m a (s + t)"
proof -
  have st: "(s + t) mod 8 = 0" using assms(5,6) by presburger
  obtain j where j: "s = 8 * j" using assms(5) by (auto simp: mod_eq_0_iff_dvd)
  show ?thesis unfolding clean_iff[OF st]
  proof (intro allI impI)
    fix k assume k: "0 < k \<and> 8 * k < s + t"
    consider "8 * k < s" | "8 * k = s" | "s < 8 * k" by linarith
    then show "\<exists>v. m (a + 8 * k) = Some v \<and> v AND 1 = 0"
    proof cases
      case 1
      with assms(1) k show ?thesis unfolding clean_iff[OF assms(5)] by blast
    next
      case 2
      with assms(3,4) show ?thesis by simp
    next
      case 3
      then have "0 < k - j \<and> 8 * (k - j) < t" using k j by auto
      with assms(2) have "\<exists>v. m (a + s + 8 * (k - j)) = Some v \<and> v AND 1 = 0"
        unfolding clean_iff[OF assms(6)] by blast
      then show ?thesis by (simp add: j algebra_simps)
    qed
  qed
qed

lemma hdr_even [simp]: "s mod 8 = 0 \<Longrightarrow> hdr s p False AND 1 = 0"
  by simp

lemma hdr_set_a: "hdr s p False + 1 = hdr s p True"
  by (simp add: hdr_def)

lemma hdr_set_p: "hdr s False a + 2 = hdr s True a"
  by (simp add: hdr_def)

lemma naf_append_free:
  "no_adjacent_free (pre @ (s, False) # post) \<Longrightarrow>
   last_alloc True pre \<and> (case post of [] \<Rightarrow> True | (t, tal) # _ \<Rightarrow> tal)"
  apply (induction pre rule: no_adjacent_free.induct)
  subgoal for x y bs by (cases y) (auto simp: last_alloc_def)
  subgoal by (auto split: list.splits)
  subgoal for v by (cases v) (auto split: list.splits)
  done

lemma naf_append:
  "no_adjacent_free (xs @ ys) \<longleftrightarrow>
   no_adjacent_free xs \<and> no_adjacent_free ys \<and>
   (xs = [] \<or> ys = [] \<or> snd (last xs) \<or> snd (hd ys))"
  apply (induction xs rule: no_adjacent_free.induct)
  subgoal for x y bs by auto
  subgoal by simp
  subgoal for v by (cases ys) auto
  done

section \<open>alloc on a well-formed heap\<close>

lemma wf_heap_update:
  assumes "wf_heap h bs"
    and "blocks_at (mem h') (heap_start h) True bs'"
    and "heap_start h' = heap_start h" and "alloc_size h' = alloc_size h"
    and "total bs' = total bs"
    and "mem h' (heap_start h + alloc_size h) = Some 1"
    and "no_adjacent_free bs'"
    and "\<And>x. mem h x \<noteq> None \<Longrightarrow> mem h' x \<noteq> None"
  shows "wf_heap h' bs'"
  using assms unfolding wf_heap_def by auto

lemma naf_set_alloc:
  "no_adjacent_free (pre @ (s, al) # post) \<Longrightarrow> no_adjacent_free (pre @ (s', True) # post)"
  by (cases post) (auto simp: naf_append)

lemma int_c_hdr: "0 < s \<Longrightarrow> s \<le> INT_MAX - 7 \<Longrightarrow> int_c (hdr s p a) = Some (hdr s p a)"
  by (rule hdr_bounds)

lemma exact_match_wf:
  assumes wf: "wf_heap h (pre @ (s, False) # post)"
    and he: "heap_end h = heap_start h + alloc_size h"
  defines "c \<equiv> heap_start h + total pre"
  shows "\<exists>h'. exact_match h c (c + s) = Some (Returned h' (c + 4)) \<and>
    wf_heap h' (pre @ (s, True) # post) \<and> heap_start h' = heap_start h \<and>
    alloc_size h' = alloc_size h \<and> heap_end h' = heap_end h \<and>
    allocated_once h' = allocated_once h"
proof -
  let ?m = "mem h" and ?hs = "heap_start h"
  define pp where "pp = last_alloc True pre"
  from wf have B: "blocks_at ?m ?hs True (pre @ (s, False) # post)"
    and tot: "total pre + s + total post = alloc_size h"
    and sen: "?m (?hs + alloc_size h) = Some 1"
    and naf: "no_adjacent_free (pre @ (s, False) # post)"
    and bnd: "alloc_size h \<le> INT_MAX - 7"
    by (simp_all add: wf_heap_def)
  from B have B1: "blocks_at ?m ?hs True pre"
    and s: "0 < s" "s mod 8 = 0" and hc: "?m c = Some (hdr s pp False)"
    and ft: "?m (c + s - 4) = Some s" and cl: "clean ?m c s"
    and B3: "blocks_at ?m (c + s) False post"
    by (simp_all add: blocks_at_append c_def pp_def)
  have n1: "0 \<le> total pre" using B1 by (rule blocks_at_total_nonneg)
  have n3: "0 \<le> total post" using B3 by (rule blocks_at_total_nonneg)
  have sb: "s \<le> INT_MAX - 7" using tot n1 n3 bnd by linarith
  have s8: "8 \<le> s" using s by (rule pos_mult8)
  have ic: "int_c (hdr s pp False + 1) = Some (hdr s pp True)"
    using int_c_hdr[OF s(1) sb, of pp True] by (simp add: hdr_set_a)
  show ?thesis
  proof (cases post)
    case Nil
    let ?h' = "h\<lparr>mem := ?m(c \<mapsto> hdr s pp True)\<rparr>"
    have e: "\<not> c + s < heap_end h" using tot Nil by (simp add: he c_def)
    have r: "exact_match h c (c + s) = Some (Returned ?h' (c + 4))"
      unfolding exact_match_def load_def store_def
      by (simp add: hc ic e)
    have P1: "blocks_at (mem ?h') ?hs True pre"
      using B1 n1 by (simp, intro blocks_at_upd_out) (auto simp: c_def)
    have C1: "clean (mem ?h') c s" using cl by (simp, intro clean_upd_out) auto
    have "blocks_at (mem ?h') ?hs True (pre @ (s, True) # post)"
      using P1 C1 s by (simp add: blocks_at_append Nil c_def[symmetric] pp_def[symmetric])
    then have "wf_heap ?h' (pre @ (s, True) # post)"
      by (rule wf_heap_update[OF wf])
        (use sen naf_set_alloc[OF naf] tot s Nil in \<open>auto simp: c_def\<close>)
    with r show ?thesis by (intro exI[of _ ?h']) simp
  next
    case (Cons b post2)
    obtain t tal where b: "b = (t, tal)" by (cases b)
    from B3 have t: "0 < t" "t mod 8 = 0" and hn: "?m (c + s) = Some (hdr t False tal)"
      and ftn: "tal \<or> ?m (c + s + t - 4) = Some t" and cln: "clean ?m (c + s) t"
      and B4: "blocks_at ?m (c + s + t) tal post2"
      by (simp_all add: Cons b)
    have n4: "0 \<le> total post2" using B4 by (rule blocks_at_total_nonneg)
    have tb: "t \<le> INT_MAX - 7" using tot n1 n4 bnd s by (simp add: Cons b)
    have t8: "8 \<le> t" using t by (rule pos_mult8)
    have ic2: "int_c (hdr t False tal + 2) = Some (hdr t True tal)"
      using int_c_hdr[OF t(1) tb, of True tal] by (simp add: hdr_set_p)
    let ?m' = "?m(c + s \<mapsto> hdr t True tal, c \<mapsto> hdr s pp True)"
    let ?h' = "h\<lparr>mem := ?m'\<rparr>"
    have lt: "c + s < heap_end h" using tot t n4 by (simp add: he c_def Cons b)
    have tw: "?m(c \<mapsto> hdr s pp True, c + s \<mapsto> hdr t True tal) = ?m'"
      using s by (intro fun_upd_twist) simp
    have r: "exact_match h c (c + s) = Some (Returned ?h' (c + 4))"
      unfolding exact_match_def load_def store_def
      using s(1) t(1) by (simp add: hc ic hn ic2 tw lt s(2) t(2))
    have P1: "blocks_at ?m' ?hs True pre"
      using B1 n1 s by (intro blocks_at_upd_out) (auto simp: c_def)
    have P4: "blocks_at ?m' (c + s + t) tal post2"
      using B4 s t by (intro blocks_at_upd_out) auto
    have C1: "clean ?m' c s" using cl by (intro clean_upd_out) auto
    have C2: "clean ?m' (c + s) t" using cln s by (intro clean_upd_out) auto
    have "blocks_at (mem ?h') ?hs True (pre @ (s, True) # post)"
      using P1 P4 C1 C2 s t s8 t8 ftn
      by (auto simp add: blocks_at_append Cons b c_def[symmetric] pp_def[symmetric])
    then have "wf_heap ?h' (pre @ (s, True) # post)"
      by (rule wf_heap_update[OF wf])
        (use sen naf_set_alloc[OF naf] tot s t n4 in \<open>auto simp: c_def Cons b\<close>)
    with r show ?thesis by (intro exI[of _ ?h']) simp
  qed
qed


lemma mult8_or2: "s mod 8 = 0 \<Longrightarrow> s OR 2 = hdr s True False"
  using hdr_or_p[of s 8 True False] by simp

lemma naf_split:
  "no_adjacent_free (pre @ (s, False) # post) \<Longrightarrow>
   no_adjacent_free (pre @ (s1, True) # (s2, False) # post)"
  by (cases post) (auto simp: naf_append)

lemma split_block_wf:
  assumes wf: "wf_heap h (pre @ (s, False) # post)"
    and sz: "0 < sz" "sz mod 8 = 0" "sz < s"
  defines "c \<equiv> heap_start h + total pre"
  shows "\<exists>h'. split_block h sz c = Some (h', c + 4) \<and>
    wf_heap h' (pre @ (sz, True) # (s - sz, False) # post) \<and> heap_start h' = heap_start h \<and>
    alloc_size h' = alloc_size h \<and> heap_end h' = heap_end h \<and>
    allocated_once h' = allocated_once h"
proof -
  let ?m = "mem h" and ?hs = "heap_start h"
  from wf have B: "blocks_at ?m ?hs True (pre @ (s, False) # post)"
    and tot: "total pre + s + total post = alloc_size h"
    and sen: "?m (?hs + alloc_size h) = Some 1"
    and naf: "no_adjacent_free (pre @ (s, False) # post)"
    and bnd: "alloc_size h \<le> INT_MAX - 7"
    by (simp_all add: wf_heap_def)
  have pp: "last_alloc True pre" using naf_append_free[OF naf] by simp
  from B have B1: "blocks_at ?m ?hs True pre"
    and s: "0 < s" "s mod 8 = 0" and hc: "?m c = Some (hdr s True False)"
    and ft: "?m (c + s - 4) = Some s" and cl: "clean ?m c s"
    and B3: "blocks_at ?m (c + s) False post"
    by (simp_all add: blocks_at_append c_def pp)
  have n1: "0 \<le> total pre" using B1 by (rule blocks_at_total_nonneg)
  have n3: "0 \<le> total post" using B3 by (rule blocks_at_total_nonneg)
  have sb: "s \<le> INT_MAX - 7" using tot n1 n3 bnd by linarith
  have sz8: "8 \<le> sz" using sz(1,2) by (rule pos_mult8)
  define r where "r = s - sz"
  have r: "0 < r" "r mod 8 = 0" "s = sz + r" using sz s by (auto simp: r_def)
  have r8: "8 \<le> r" using r(1,2) by (rule pos_mult8)
  have i1: "int_c r = Some r" "int_c (sz + 2) = Some (sz + 2)"
    "int_c (sz + 2 + 1) = Some (hdr sz True True)" "int_c (3 + sz) = Some (hdr sz True True)"
    using sb r sz by (auto simp: int_c_def INT_MAX_def INT_MIN_def hdr_def)
  have mp: "?m (c + sz) \<noteq> None"
  proof -
    obtain j where j: "sz = 8 * j" using sz(2) by (auto simp: mod_eq_0_iff_dvd)
    have "0 < j \<and> 8 * j < s" using sz j by auto
    with cl have "\<exists>v. ?m (c + 8 * j) = Some v \<and> v AND 1 = 0"
      unfolding clean_iff[OF s(2)] by blast
    then show ?thesis by (auto simp: j)
  qed
  let ?m' = "?m(c \<mapsto> hdr sz True True, c + sz + r - 4 \<mapsto> r, c + sz \<mapsto> hdr r True False)"
  let ?h' = "h\<lparr>mem := ?m'\<rparr>"
  have res: "split_block h sz c = Some (?h', c + 4)"
  proof -
    have hc': "?m c = Some (hdr (sz + r) True False)" using hc r(3) by simp
    have sr: "(sz + r) mod 8 = 0" using s(2) r(3) by simp
    have ft': "?m (c + sz + r - 4) = Some (sz + r)" using ft r(3) by (simp add: add.assoc)
    have ne: "c + sz + r - 4 \<noteq> c" "c + sz + r - 4 \<noteq> c + sz" "c + sz \<noteq> c"
      using sz8 r8 by auto
    show ?thesis
      unfolding split_block_def load_def store_def
      using mp ne by (simp add: hc' sr sz(2) r(2) i1 ft' mult8_or2)
  qed
  have P1: "blocks_at ?m' ?hs True pre"
    using B1 n1 sz8 r8 by (intro blocks_at_upd_out) (auto simp: c_def)
  have P3: "blocks_at ?m' (c + sz + r) False post"
    using B3 sz8 r8 unfolding r(3) by (intro blocks_at_upd_out) (auto simp: add.assoc)
  have "clean ?m c sz" using cl s(2) sz(2) by (rule clean_prefix) (use sz(3) in simp)
  then have C1: "clean ?m' c sz" using sz8 r8 by (intro clean_upd_out) auto
  have "clean ?m (c + sz) r" unfolding r_def using cl s(2) sz(2)
    by (rule clean_suffix) (use sz(1) in simp)
  then have C2: "clean ?m' (c + sz) r"
    using sz8 r8 r(2) by (intro clean_upd_out clean_upd_even) (auto simp: mult8_bits)
  have "blocks_at (mem ?h') ?hs True (pre @ (sz, True) # (r, False) # post)"
    using P1 P3 C1 C2 sz sz8 r r8
    by (auto simp add: blocks_at_append c_def[symmetric] pp)
  then have "wf_heap ?h' (pre @ (sz, True) # (r, False) # post)"
    by (rule wf_heap_update[OF wf])
      (use sen naf_split[OF naf] tot s r r8 sz8 n3 in \<open>auto simp: c_def\<close>)
  with res show ?thesis by (intro exI[of _ ?h']) (simp add: r_def)
qed

lemma wf_heap_heap_end [simp]: "wf_heap (h\<lparr>heap_end := e\<rparr>) bs = wf_heap h bs"
  by (simp add: wf_heap_def)

lemma blocks_at_size_le_total:
  "blocks_at m a p bs \<Longrightarrow> (s, al) \<in> set bs \<Longrightarrow> s \<le> total bs"
proof (induction m a p bs rule: blocks_at.induct)
  case (1 m a p)
  then show ?case by simp
next
  case (2 m a p s' al' bs)
  have "0 \<le> total bs" using 2 blocks_at_total_nonneg[of m "a + s'" al' bs] by simp
  then show ?case using 2 by auto
qed

lemma required_calc_bind:
  assumes "1 \<le> n"
  shows "(int_c (n + 4) \<bind>
           (\<lambda>size1. (if size1 mod 8 \<noteq> 0 then int_c (size1 + (8 - size1 mod 8)) else Some size1)
              \<bind> K)) =
         (if required n \<le> INT_MAX then K (required n) else None)"
proof -
  have "(int_c (n + 4) \<bind>
           (\<lambda>size1. if size1 mod 8 \<noteq> 0 then int_c (size1 + (8 - size1 mod 8)) else Some size1))
          \<bind> K =
        (if required n \<le> INT_MAX then Some (required n) else None) \<bind> K"
    by (simp only: required_calc[OF assms])
  then show ?thesis by simp
qed

lemma alloc_overflow: "1 \<le> n \<Longrightarrow> INT_MAX < required n \<Longrightarrow> alloc h n = None"
  by (simp add: alloc_def required_calc_bind)

lemma alloc_cases:
  assumes wf: "wf_heap h bs" and n: "1 \<le> n" and fit: "required n \<le> INT_MAX"
  shows "(\<not> (\<exists>(s, al) \<in> set bs. \<not> al \<and> required n \<le> s) \<and>
          alloc h n = Some (h\<lparr>heap_end := heap_start h + alloc_size h\<rparr>, 0)) \<or>
         (\<exists>pre s post h'. best_fit bs (required n) pre s post \<and>
            alloc h n = Some (h', heap_start h + total pre + 4) \<and>
            heap_start h' = heap_start h \<and> alloc_size h' = alloc_size h \<and>
            heap_end h' = heap_start h + alloc_size h \<and>
            allocated_once h' = allocated_once h \<and>
            wf_heap h' (pre @ (if s = required n then [(s, True)]
                               else [(required n, True), (s - required n, False)]) @ post))"
proof -
  define sz where "sz = required n"
  define h0 where "h0 = h\<lparr>heap_end := heap_start h + alloc_size h\<rparr>"
  let ?hs = "heap_start h"
  have sz: "0 < sz" "sz mod 8 = 0" using required_props[of n] n by (auto simp: sz_def)
  have wf0: "wf_heap h0 bs" using wf by (simp add: h0_def)
  have h0: "heap_start h0 = ?hs" "alloc_size h0 = alloc_size h"
    "heap_end h0 = heap_start h0 + alloc_size h0" "allocated_once h0 = allocated_once h"
    by (simp_all add: h0_def)
  have B: "blocks_at (mem h0) ?hs True bs" and tot: "total bs = alloc_size h"
    and bnd: "alloc_size h \<le> INT_MAX - 7" and hs: "0 < ?hs"
    using wf0 by (simp_all add: wf_heap_def h0)
  have al: "alloc h n =
     (case scan ?hs bs sz 0 INT_MAX of
        Inl c \<Rightarrow> exact_match h0 c (c + sz)
      | Inr b \<Rightarrow> Some (Finished b)) \<bind>
     (\<lambda>r. case r of Returned h1 p \<Rightarrow> Some (h1, p)
        | Finished bestFit \<Rightarrow> if bestFit \<noteq> 0 then split_block h0 sz bestFit else Some (h0, 0))"
  proof -
    have "best_fit_loop h0 sz ?hs 0 INT_MAX =
      (case scan ?hs bs sz 0 INT_MAX of
        Inl c \<Rightarrow> exact_match h0 c (c + sz)
      | Inr b \<Rightarrow> Some (Finished b))"
      by (rule best_fit_loop_scan[OF B]) (simp add: tot h0)
    then show ?thesis
      using n fit unfolding sz_def
      by (simp add: alloc_def required_calc_bind h0_def[symmetric] h0)
  qed
  show ?thesis
  proof (cases "scan ?hs bs sz 0 INT_MAX")
    case (Inl c)
    from scan_Inl[OF Inl] obtain pre post where
      bf: "best_fit bs sz pre sz post" and c: "c = ?hs + total pre" by blast
    have bs: "bs = pre @ (sz, False) # post" using bf by (simp add: best_fit_def)
    from exact_match_wf[OF wf0[unfolded bs] h0(3)] obtain h' where
      h': "exact_match h0 c (c + sz) = Some (Returned h' (c + 4))"
      "wf_heap h' (pre @ (sz, True) # post)" "heap_start h' = heap_start h0"
      "alloc_size h' = alloc_size h0" "heap_end h' = heap_end h0"
      "allocated_once h' = allocated_once h0"
      unfolding c h0(1) by blast
    have "alloc h n = Some (h', c + 4)" using al Inl h'(1) by simp
    then show ?thesis
      using bf h' c unfolding sz_def[symmetric] h0
      by (intro disjI2 exI[of _ pre] exI[of _ sz] exI[of _ post] exI[of _ h']) simp
  next
    case (Inr b)
    from scan_Inr[OF Inr] consider
      (none) "b = 0" "\<forall>(s', al') \<in> set bs. \<not> al' \<and> sz \<le> s' \<longrightarrow> INT_MAX \<le> s'"
      | (some) pre s post where "best_fit bs sz pre s post" "b = ?hs + total pre" "sz < s"
      by blast
    then show ?thesis
    proof cases
      case none
      have "\<not> (\<exists>(s, al) \<in> set bs. \<not> al \<and> sz \<le> s)"
      proof
        assume "\<exists>(s, al) \<in> set bs. \<not> al \<and> sz \<le> s"
        then obtain s al where x: "(s, al) \<in> set bs" "\<not> al" "sz \<le> s" by blast
        with none(2) have "INT_MAX \<le> s" by blast
        moreover have "s \<le> total bs" using B x(1) by (rule blocks_at_size_le_total)
        ultimately show False using tot bnd by simp
      qed
      moreover have "alloc h n = Some (h0, 0)" using al Inr none(1) by simp
      ultimately show ?thesis unfolding sz_def h0_def by blast
    next
      case some
      have bs: "bs = pre @ (s, False) # post" using some(1) by (simp add: best_fit_def)
      have "blocks_at (mem h0) ?hs True pre" using B by (simp add: bs blocks_at_append)
      then have "0 \<le> total pre" by (rule blocks_at_total_nonneg)
      then have b0: "b \<noteq> 0" using some(2) hs by simp
      from split_block_wf[OF wf0[unfolded bs] sz some(3)] obtain h' where
        h': "split_block h0 sz b = Some (h', b + 4)"
        "wf_heap h' (pre @ (sz, True) # (s - sz, False) # post)" "heap_start h' = heap_start h0"
        "alloc_size h' = alloc_size h0" "heap_end h' = heap_end h0"
        "allocated_once h' = allocated_once h0"
        unfolding some(2) h0(1) by blast
      have "alloc h n = Some (h', b + 4)" using al Inr h'(1) b0 by simp
      then show ?thesis
        using some h' unfolding sz_def[symmetric] h0
        by (intro disjI2 exI[of _ pre] exI[of _ s] exI[of _ post] exI[of _ h']) simp
    qed
  qed
qed

section \<open>free_block on a well-formed heap\<close>

lemma locate_block:
  assumes "blocks_at m a p bs" and "a \<le> x" and "x < a + total bs" and "(x - a) mod 8 = 0"
    and "m x = Some v" and "v AND 1 \<noteq> 0"
  shows "\<exists>pre s post. bs = pre @ (s, True) # post \<and> x = a + total pre"
  using assms
proof (induction bs arbitrary: a p)
  case Nil
  then show ?case by simp
next
  case (Cons b bs)
  obtain s al where b: "b = (s, al)" by (cases b)
  from Cons.prems(1) have s: "0 < s" "s mod 8 = 0" and h: "m a = Some (hdr s p al)"
    and c: "clean m a s" and r: "blocks_at m (a + s) al bs"
    by (simp_all add: b)
  consider "x = a" | "a < x" "x < a + s" | "a + s \<le> x" using Cons.prems(2) by linarith
  then show ?case
  proof cases
    case 1
    then have "al" using h Cons.prems(5,6) s by (cases al) auto
    then show ?thesis using 1 by (intro exI[of _ "[]"] exI[of _ s] exI[of _ bs]) (simp add: b)
  next
    case 2
    obtain k where k: "x - a = 8 * k" using Cons.prems(4) by (auto simp: mod_eq_0_iff_dvd)
    then have "0 < k \<and> 8 * k < s" using 2 by auto
    with c have "\<exists>v. m (a + 8 * k) = Some v \<and> v AND 1 = 0"
      unfolding clean_iff[OF s(2)] by blast
    moreover have "a + 8 * k = x" using k by simp
    ultimately show ?thesis using Cons.prems(5,6) by simp
  next
    case 3
    have "(x - (a + s)) mod 8 = 0" using Cons.prems(4) s(2) by presburger
    from Cons.IH[OF r 3 _ this Cons.prems(5,6)] Cons.prems(3)
    obtain pre s' post where "bs = pre @ (s', True) # post" "x = a + s + total pre"
      by (auto simp: b add.assoc)
    then show ?thesis
      by (intro exI[of _ "(s, al) # pre"] exI[of _ s'] exI[of _ post]) (simp add: b)
  qed
qed

lemma coalesce_next_wf:
  assumes B3: "blocks_at (mem h) (a + s) True post"
    and sen: "mem h (a + s + total post) = Some 1"
    and ha: "mem h a = Some (hdr s pp False)"
    and s: "0 < s" "s mod 8 = 0" and cl: "clean (mem h) a s"
    and naf: "no_adjacent_free post"
    and bnd: "s + total post \<le> INT_MAX - 7"
  shows "\<exists>h'. coalesce_next h a s = Some (h', fst (absorb_next s post)) \<and>
    mem h' = (mem h)(a \<mapsto> hdr (fst (absorb_next s post)) pp False) \<and>
    clean (mem h') a (fst (absorb_next s post)) \<and>
    blocks_at (mem h') (a + fst (absorb_next s post)) (fst (absorb_next s post) = s)
      (snd (absorb_next s post)) \<and>
    heap_start h' = heap_start h \<and> alloc_size h' = alloc_size h \<and>
    heap_end h' = heap_end h \<and> allocated_once h' = allocated_once h"
proof -
  have triv: "(mem h)(a \<mapsto> hdr s pp False) = mem h" using ha by (rule map_upd_triv)
  consider (nil) "post = []" | (used) t post2 where "post = (t, True) # post2"
    | (free) t post2 where "post = (t, False) # post2"
    by (cases post) auto
  then show ?thesis
  proof cases
    case nil
    have "coalesce_next h a s = Some (h, s)"
      using sen by (simp add: coalesce_next_def load_def nil)
    then show ?thesis using cl by (intro exI[of _ h]) (simp add: absorb_next_def nil triv)
  next
    case used
    from B3 have t: "0 < t" "t mod 8 = 0" and hn: "mem h (a + s) = Some (hdr t True True)"
      by (simp_all add: used)
    have "coalesce_next h a s = Some (h, s)"
      using hn t by (simp add: coalesce_next_def load_def)
    then show ?thesis using cl B3
      by (intro exI[of _ h]) (simp add: absorb_next_def used triv)
  next
    case free
    from B3 have t: "0 < t" "t mod 8 = 0" and hn: "mem h (a + s) = Some (hdr t True False)"
      and cln: "clean (mem h) (a + s) t" and B4: "blocks_at (mem h) (a + s + t) False post2"
      by (simp_all add: free)
    have n4: "0 \<le> total post2" using B4 by (rule blocks_at_total_nonneg)
    have st: "(s + t) mod 8 = 0" using s(2) t(2) by presburger
    have ic: "int_c (s + t) = Some (s + t)"
      using bnd n4 s t by (simp add: int_c_def INT_MAX_def INT_MIN_def free)
    let ?h' = "h\<lparr>mem := (mem h)(a \<mapsto> hdr (s + t) pp False)\<rparr>"
    have r: "coalesce_next h a s = Some (?h', s + t)"
      by (simp add: coalesce_next_def load_def store_def hn ha ic t(2) s(2) st
          mult8_or2[OF st] hdr_FF)
    have "clean (mem h) a (s + t)"
      using cl cln hn _ s(2) t(2) by (rule clean_join) (simp add: t(2))
    then have C: "clean (mem ?h') a (s + t)"
      by (simp add: clean_upd_out)
    have P: "blocks_at (mem ?h') (a + (s + t)) False post2"
      using B4 s(1) t(1) by (simp add: add.assoc blocks_at_upd_out)
    show ?thesis using r C P t
      by (intro exI[of _ ?h']) (simp add: absorb_next_def free)
  qed
qed


lemma coalesce_prev_wf:
  assumes B1: "blocks_at (mem h) hs True pre" and a: "a = hs + total pre"
    and ha: "mem h a = Some (hdr s (last_alloc True pre) False)"
    and s: "0 < s" "s mod 8 = 0" and cl: "clean (mem h) a s"
    and naf: "no_adjacent_free pre"
    and bnd: "total pre + s \<le> INT_MAX - 7"
  shows "\<exists>h'. coalesce_prev h a s =
      Some (h', hs + total (fst (absorb_prev pre s)), snd (absorb_prev pre s)) \<and>
    mem h' = (mem h)(hs + total (fst (absorb_prev pre s)) \<mapsto>
                hdr (snd (absorb_prev pre s)) True False) \<and>
    clean (mem h') (hs + total (fst (absorb_prev pre s))) (snd (absorb_prev pre s)) \<and>
    blocks_at (mem h') hs True (fst (absorb_prev pre s)) \<and>
    last_alloc True (fst (absorb_prev pre s)) \<and>
    total (fst (absorb_prev pre s)) + snd (absorb_prev pre s) = total pre + s \<and>
    heap_start h' = heap_start h \<and> alloc_size h' = alloc_size h \<and>
    heap_end h' = heap_end h \<and> allocated_once h' = allocated_once h"
proof (cases "last_alloc True pre")
  case True
  then have ap: "absorb_prev pre s = (pre, s)" by (auto simp: absorb_prev_def last_alloc_def)
  have triv: "(mem h)(a \<mapsto> hdr s True False) = mem h" using ha True by (intro map_upd_triv) simp
  have "coalesce_prev h a s = Some (h, a, s)"
    using ha True s by (simp add: coalesce_prev_def load_def)
  then show ?thesis using cl B1 True
    by (intro exI[of _ h]) (simp add: ap a[symmetric] triv)
next
  case False
  then have ne: "pre \<noteq> []" and lst: "\<not> snd (last pre)" by (auto simp: last_alloc_def split: if_splits)
  define pre' where "pre' = butlast pre"
  define u where "u = fst (last pre)"
  have pre: "pre = pre' @ [(u, False)]"
    using ne lst by (simp add: pre'_def u_def) (metis append_butlast_last_id prod.collapse)
  have ap: "absorb_prev pre s = (pre', u + s)" using ne lst by (simp add: absorb_prev_def pre'_def u_def)
  define A where "A = hs + total pre'"
  have lp: "last_alloc True pre'" using naf naf_append_free[of pre' u "[]"] by (simp add: pre)
  from B1 have P: "blocks_at (mem h) hs True pre'" and u: "0 < u" "u mod 8 = 0"
    and hA: "mem h A = Some (hdr u True False)" and fA: "mem h (A + u - 4) = Some u"
    and clA: "clean (mem h) A u"
    by (simp_all add: pre blocks_at_append A_def lp)
  have aA: "a = A + u" by (simp add: a pre A_def)
  have n1: "0 \<le> total pre'" using P by (rule blocks_at_total_nonneg)
  have us: "(u + s) mod 8 = 0" using s(2) u(2) by presburger
  have ic: "int_c (s + u) = Some (u + s)"
    using bnd n1 s u by (simp add: int_c_def INT_MAX_def INT_MIN_def pre)
  have ha': "mem h (A + u) = Some (hdr s False False)" using ha False by (simp add: aA)
  let ?h' = "h\<lparr>mem := (mem h)(A \<mapsto> hdr (u + s) True False)\<rparr>"
  have fA': "mem h (A + u - 4) = Some u" by (rule fA)
  have r: "coalesce_prev h a s = Some (?h', A, u + s)"
    unfolding aA
    using fA by (simp add: coalesce_prev_def load_def store_def ha' s(2) ic hA u(2) us
          mult8_or2[OF us])
  have "clean (mem h) A (u + s)"
    using clA _ ha' _ u(2) s(2) by (rule clean_join) (use cl in \<open>simp_all add: aA s(2)\<close>)
  then have C: "clean (mem ?h') A (u + s)" by (simp add: clean_upd_out)
  have P': "blocks_at (mem ?h') hs True pre'"
    using P by (simp add: blocks_at_upd_out A_def)
  show ?thesis using r C P' lp
    by (intro exI[of _ ?h']) (simp add: ap A_def[symmetric], simp add: pre)
qed


lemma finish_free_wf:
  assumes P: "blocks_at (mem h) hs True pre'" and lp: "last_alloc True pre'"
    and A: "A = hs + total pre'"
    and hA: "mem h A = Some (hdr S True False)"
    and S: "0 < S" "S mod 8 = 0" and cl: "clean (mem h) A S"
    and Bp: "blocks_at (mem h) (A + S) q post'"
    and shape: "post' = [] \<or> (\<exists>w post3. post' = (w, True) # post3)"
    and sen: "mem h (A + S + total post') = Some 1"
    and he: "heap_end h = A + S + total post'"
    and mp: "mem h (A + S - 4) \<noteq> None"
  shows "\<exists>h'. finish_free h A S = Some h' \<and>
    blocks_at (mem h') hs True (pre' @ (S, False) # post') \<and>
    mem h' (A + S + total post') = Some 1 \<and>
    (\<forall>x. mem h x \<noteq> None \<longrightarrow> mem h' x \<noteq> None) \<and>
    heap_start h' = heap_start h \<and> alloc_size h' = alloc_size h \<and>
    heap_end h' = heap_end h \<and> allocated_once h' = allocated_once h"
proof -
  have S8: "8 \<le> S" using S by (rule pos_mult8)
  have n1: "0 \<le> total pre'" using P by (rule blocks_at_total_nonneg)
  have n3: "0 \<le> total post'" using Bp by (rule blocks_at_total_nonneg)
  have lt: "A + S - 4 < heap_end h" using he n3 by simp
  from shape show ?thesis
  proof
    assume nil: "post' = []"
    let ?m' = "(mem h)(A + S - 4 \<mapsto> S)"
    let ?h' = "h\<lparr>mem := ?m'\<rparr>"
    have r: "finish_free h A S = Some ?h'"
      using sen mp lt by (auto simp add: finish_free_def load_def store_def nil)
    have P1: "blocks_at ?m' hs True pre'"
      using P S8 by (simp add: blocks_at_upd_out A)
    have C: "clean ?m' A S" using cl S(2) by (simp add: clean_upd_even mult8_bits)
    have "blocks_at (mem ?h') hs True (pre' @ (S, False) # post')"
      using P1 C S S8 hA by (simp add: blocks_at_append nil A[symmetric] lp)
    then show ?thesis using r sen S8
      by (intro exI[of _ ?h']) (simp add: nil)
  next
    assume "\<exists>w post3. post' = (w, True) # post3"
    then obtain w post3 where cons: "post' = (w, True) # post3" by blast
    from Bp have w: "0 < w" "w mod 8 = 0" and hN: "mem h (A + S) = Some (hdr w q True)"
      and clN: "clean (mem h) (A + S) w" and B4: "blocks_at (mem h) (A + S + w) True post3"
      by (simp_all add: cons)
    have w8: "8 \<le> w" using w by (rule pos_mult8)
    have n4: "0 \<le> total post3" using B4 by (rule blocks_at_total_nonneg)
    let ?m' = "(mem h)(A + S \<mapsto> hdr w False True, A + S - 4 \<mapsto> S)"
    let ?h' = "h\<lparr>mem := ?m'\<rparr>"
    have r: "finish_free h A S = Some ?h'"
      using mp lt w(1) by (auto simp add: finish_free_def load_def store_def hN w(2))
    have P1: "blocks_at ?m' hs True pre'"
      using P S8 by (simp add: blocks_at_upd_out A)
    have C: "clean ?m' A S" using cl S(2) by (simp add: clean_upd_even clean_upd_out mult8_bits)
    have CN: "clean ?m' (A + S) w" using clN by (simp add: clean_upd_out)
    have P4: "blocks_at ?m' (A + S + w) True post3"
      using B4 w8 by (simp add: blocks_at_upd_out)
    have "blocks_at (mem ?h') hs True (pre' @ (S, False) # post')"
      using P1 C CN P4 S S8 w hA by (simp add: blocks_at_append cons A[symmetric] lp)
    then show ?thesis using r sen S8 w8 n4
      by (intro exI[of _ ?h']) (simp add: cons)
  qed
qed


lemma absorb_next_props:
  assumes "blocks_at m b True post" and "no_adjacent_free post" and "0 < s" and "s mod 8 = 0"
  shows "0 < fst (absorb_next s post)" and "fst (absorb_next s post) mod 8 = 0"
    and "fst (absorb_next s post) + total (snd (absorb_next s post)) = s + total post"
    and "no_adjacent_free (snd (absorb_next s post))"
    and "snd (absorb_next s post) = [] \<or> (\<exists>w post3. snd (absorb_next s post) = (w, True) # post3)"
proof -
  consider (nil) "post = []" | (used) t post2 where "post = (t, True) # post2"
    | (free) t post2 where "post = (t, False) # post2"
    by (cases post) auto
  then have "0 < fst (absorb_next s post) \<and> fst (absorb_next s post) mod 8 = 0 \<and>
    fst (absorb_next s post) + total (snd (absorb_next s post)) = s + total post \<and>
    no_adjacent_free (snd (absorb_next s post)) \<and>
    (snd (absorb_next s post) = [] \<or> (\<exists>w post3. snd (absorb_next s post) = (w, True) # post3))"
  proof cases
    case nil
    then show ?thesis using assms by (simp add: absorb_next_def)
  next
    case used
    then show ?thesis using assms by (simp add: absorb_next_def)
  next
    case free
    have "0 < t" "t mod 8 = 0" using assms(1) by (simp_all add: free)
    moreover have "(s + t) mod 8 = 0" using assms(4) \<open>t mod 8 = 0\<close> by presburger
    moreover have "no_adjacent_free post2 \<and> (post2 = [] \<or> (\<exists>w post3. post2 = (w, True) # post3))"
      using assms(2) unfolding free by (cases post2) auto
    ultimately show ?thesis using assms(3) by (simp add: absorb_next_def free)
  qed
  then show "0 < fst (absorb_next s post)" and "fst (absorb_next s post) mod 8 = 0"
    and "fst (absorb_next s post) + total (snd (absorb_next s post)) = s + total post"
    and "no_adjacent_free (snd (absorb_next s post))"
    and "snd (absorb_next s post) = [] \<or> (\<exists>w post3. snd (absorb_next s post) = (w, True) # post3)"
    by blast+
qed

lemma absorb_prev_props:
  assumes "blocks_at m hs True pre" and "no_adjacent_free pre" and "0 < s" and "s mod 8 = 0"
  shows "0 < snd (absorb_prev pre s)" and "snd (absorb_prev pre s) mod 8 = 0"
    and "no_adjacent_free (fst (absorb_prev pre s))"
proof -
  have "0 < snd (absorb_prev pre s) \<and> snd (absorb_prev pre s) mod 8 = 0 \<and>
    no_adjacent_free (fst (absorb_prev pre s))"
  proof (cases "pre \<noteq> [] \<and> \<not> snd (last pre)")
    case True
    then have pre: "pre = butlast pre @ [(fst (last pre), False)]"
      by (metis append_butlast_last_id prod.collapse)
    have "0 < fst (last pre)" "fst (last pre) mod 8 = 0"
      using assms(1) by (subst (asm) pre, simp add: blocks_at_append)+
    moreover have "(fst (last pre) + s) mod 8 = 0"
      using assms(4) \<open>fst (last pre) mod 8 = 0\<close> by presburger
    moreover have "no_adjacent_free (butlast pre)"
      using assms(2) by (subst (asm) pre) (simp add: naf_append)
    ultimately show ?thesis using True assms(3) by (simp add: absorb_prev_def)
  next
    case False
    then show ?thesis using assms by (auto simp: absorb_prev_def)
  qed
  then show "0 < snd (absorb_prev pre s)" and "snd (absorb_prev pre s) mod 8 = 0"
    and "no_adjacent_free (fst (absorb_prev pre s))" by blast+
qed

lemma naf_free_between:
  assumes "no_adjacent_free pre" and "no_adjacent_free post" and "last_alloc True pre"
    and "post = [] \<or> (\<exists>w post3. post = (w, True) # post3)"
  shows "no_adjacent_free (pre @ (S, False) # post)"
  using assms by (cases post) (auto simp: naf_append last_alloc_def split: if_splits)

lemma freed_eq:
  "freed pre s post =
     fst (absorb_prev pre (fst (absorb_next s post))) @
     (snd (absorb_prev pre (fst (absorb_next s post))), False) # snd (absorb_next s post)"
  by (simp add: freed_def split: prod.splits)

lemma free_block_wf:
  assumes wf: "wf_heap h (pre @ (s, True) # post)"
  defines "ptr \<equiv> heap_start h + total pre + 4"
  shows "\<exists>h'. free_block h ptr = Some (h', 0) \<and> wf_heap h' (freed pre s post) \<and>
    heap_start h' = heap_start h \<and> alloc_size h' = alloc_size h \<and>
    heap_end h' = heap_start h + alloc_size h \<and> allocated_once h' = allocated_once h"
proof -
  let ?m = "mem h" and ?hs = "heap_start h"
  define a where "a = ?hs + total pre"
  define pp where "pp = last_alloc True pre"
  from wf have B: "blocks_at ?m ?hs True (pre @ (s, True) # post)"
    and tot: "total pre + s + total post = alloc_size h"
    and sen: "?m (?hs + alloc_size h) = Some 1"
    and naf: "no_adjacent_free (pre @ (s, True) # post)"
    and bnd: "alloc_size h \<le> INT_MAX - 7"
    and hs: "?hs mod 8 = 4" "0 < ?hs"
    and mapped: "\<forall>k\<in>{0..<alloc_size h div 4}. ?m (?hs + 4 * k) \<noteq> None"
    by (simp_all add: wf_heap_def)
  from B have B1: "blocks_at ?m ?hs True pre"
    and s: "0 < s" "s mod 8 = 0" and ha: "?m a = Some (hdr s pp True)"
    and cl: "clean ?m a s" and B3: "blocks_at ?m (a + s) True post"
    by (simp_all add: blocks_at_append a_def pp_def)
  have naf1: "no_adjacent_free pre" and naf3: "no_adjacent_free post"
    using naf by (cases post; simp add: naf_append)+
  have n1: "0 \<le> total pre" using B1 by (rule blocks_at_total_nonneg)
  have n3: "0 \<le> total post" using B3 by (rule blocks_at_total_nonneg)
  have m1: "total pre mod 8 = 0" using B1 by (rule blocks_at_total_mod8)
  have s8: "8 \<le> s" using s by (rule pos_mult8)
  have ptr: "ptr = a + 4" by (simp add: ptr_def a_def)
  have chk: "ptr \<noteq> 0" "ptr mod 8 = 0" "\<not> ptr < ?hs" "\<not> ptr \<ge> ?hs + alloc_size h"
    using hs n1 m1 tot s8 n3 unfolding ptr a_def by (auto, presburger)
  define h0 where "h0 = h\<lparr>heap_end := ?hs + alloc_size h\<rparr>"
  define h1 where "h1 = h0\<lparr>mem := ?m(a \<mapsto> hdr s pp False)\<rparr>"
  have f0: "free_block h ptr =
      coalesce_next h1 a s \<bind> (\<lambda>(h2, ptr_size).
        coalesce_prev h2 a ptr_size \<bind> (\<lambda>(h3, ptr_header, ptr_size).
          finish_free h3 ptr_header ptr_size \<bind> (\<lambda>h4. Some (h4, 0))))"
    using chk ha s(2)
    by (simp add: free_block_def load_def store_def ptr h0_def h1_def)
  \<comment> \<open>forward\<close>
  define s1 where "s1 = fst (absorb_next s post)"
  define post' where "post' = snd (absorb_next s post)"
  have A1: "blocks_at (mem h1) (a + s) True post"
    using B3 s(1) by (simp add: h1_def h0_def blocks_at_upd_out)
  have A2: "mem h1 (a + s + total post) = Some 1"
    using sen tot s(1) n3 by (simp add: h1_def h0_def a_def add.assoc)
  have A3: "mem h1 a = Some (hdr s pp False)" by (simp add: h1_def h0_def)
  have A4: "clean (mem h1) a s" using cl by (simp add: h1_def h0_def clean_upd_out)
  have A5: "s + total post \<le> INT_MAX - 7" using tot n1 bnd by linarith
  from coalesce_next_wf[OF A1 A2 A3 s A4 naf3 A5] obtain h2 where
    h2: "coalesce_next h1 a s = Some (h2, s1)"
      "mem h2 = (mem h1)(a \<mapsto> hdr s1 pp False)" "clean (mem h2) a s1"
      "blocks_at (mem h2) (a + s1) (s1 = s) post'"
      "heap_start h2 = heap_start h1" "alloc_size h2 = alloc_size h1"
      "heap_end h2 = heap_end h1" "allocated_once h2 = allocated_once h1"
    unfolding s1_def post'_def by blast
  note an = absorb_next_props[OF B3 naf3 s, folded s1_def post'_def]
  \<comment> \<open>backward\<close>
  define pre' where "pre' = fst (absorb_prev pre s1)"
  define S where "S = snd (absorb_prev pre s1)"
  have m2: "mem h2 = ?m(a \<mapsto> hdr s1 pp False)" by (simp add: h2(2) h1_def h0_def)
  have C1: "blocks_at (mem h2) ?hs True pre" using B1 by (simp add: m2 blocks_at_upd_out a_def)
  have C2: "mem h2 a = Some (hdr s1 (last_alloc True pre) False)" by (simp add: m2 pp_def)
  have C3: "total pre + s1 \<le> INT_MAX - 7" using an(3) tot bnd n3
      blocks_at_total_nonneg[OF h2(4)] by linarith
  from coalesce_prev_wf[OF C1 a_def C2 an(1,2) h2(3) naf1 C3] obtain h3 where
    h3: "coalesce_prev h2 a s1 = Some (h3, ?hs + total pre', S)"
      "mem h3 = (mem h2)(?hs + total pre' \<mapsto> hdr S True False)"
      "clean (mem h3) (?hs + total pre') S" "blocks_at (mem h3) ?hs True pre'"
      "last_alloc True pre'" "total pre' + S = total pre + s1"
      "heap_start h3 = heap_start h2" "alloc_size h3 = alloc_size h2"
      "heap_end h3 = heap_end h2" "allocated_once h3 = allocated_once h2"
    unfolding pre'_def S_def by blast
  note ap = absorb_prev_props[OF C1 naf1 an(1,2), folded pre'_def S_def]
  \<comment> \<open>closing\<close>
  define A where "A = ?hs + total pre'"
  have AS: "A + S = a + s1" using h3(6) by (simp add: A_def a_def)
  have n1': "0 \<le> total pre'" using h3(4) by (rule blocks_at_total_nonneg)
  have m1': "total pre' mod 8 = 0" using h3(4) by (rule blocks_at_total_mod8)
  have n3': "0 \<le> total post'" using h2(4) by (rule blocks_at_total_nonneg)
  have S8: "8 \<le> S" using ap(1,2) by (rule pos_mult8)
  have end': "A + S + total post' = ?hs + alloc_size h"
    using AS an(3) tot by (simp add: a_def)
  have D1: "mem h3 A = Some (hdr S True False)" by (simp add: h3(2) A_def)
  have D2: "blocks_at (mem h3) (A + S) (s1 = s) post'"
    using h2(4) S8 unfolding AS[symmetric] by (simp add: h3(2) blocks_at_upd_out A_def)
  have D3: "mem h3 (A + S + total post') = Some 1"
    using sen S8 n3' an(1) unfolding end' h3(2) m2
    by (simp add: A_def[symmetric]) (use AS end' in auto)
  have D4: "heap_end h3 = A + S + total post'"
    unfolding end' by (simp add: h3 h2 h1_def h0_def)
  have D5: "mem h3 (A + S - 4) \<noteq> None"
  proof -
    define k where "k = (total pre' + S - 4) div 4"
    have "(total pre' + S - 4) mod 4 = 0" using m1' ap(2) by presburger
    then have k4: "4 * k = total pre' + S - 4" unfolding k_def by presburger
    have "k \<in> {0..<alloc_size h div 4}"
      using k4 n1' S8 end' n3' unfolding A_def by auto
    with mapped have "?m (?hs + 4 * k) \<noteq> None" by blast
    moreover have "?hs + 4 * k = A + S - 4" unfolding k4 A_def by simp
    ultimately have "?m (A + S - 4) \<noteq> None" by simp
    then show ?thesis by (simp add: h3(2) m2)
  qed
  from finish_free_wf[OF h3(4,5) A_def D1 ap(1,2) h3(3)[folded A_def] D2 an(5) D3 D4 D5]
  obtain h4 where
    h4: "finish_free h3 A S = Some h4"
      "blocks_at (mem h4) ?hs True (pre' @ (S, False) # post')"
      "mem h4 (A + S + total post') = Some 1"
      "\<forall>x. mem h3 x \<noteq> None \<longrightarrow> mem h4 x \<noteq> None"
      "heap_start h4 = heap_start h3" "alloc_size h4 = alloc_size h3"
      "heap_end h4 = heap_end h3" "allocated_once h4 = allocated_once h3"
    by blast
  have res: "free_block h ptr = Some (h4, 0)"
    by (simp add: f0 h2(1) h3(1) h4(1) A_def[symmetric])
  have fr: "freed pre s post = pre' @ (S, False) # post'"
    by (simp add: freed_eq pre'_def S_def s1_def post'_def)
  have flds: "heap_start h4 = ?hs" "alloc_size h4 = alloc_size h"
    "heap_end h4 = ?hs + alloc_size h" "allocated_once h4 = allocated_once h"
    by (simp_all add: h4 h3 h2 h1_def h0_def)
  have "wf_heap h4 (freed pre s post)"
    unfolding fr
  proof (rule wf_heap_update[OF wf h4(2) flds(1,2)])
    show "total (pre' @ (S, False) # post') = total (pre @ (s, True) # post)"
      using h3(6) an(3) by simp
    show "mem h4 (?hs + alloc_size h) = Some 1" using h4(3) by (simp add: end')
    show "no_adjacent_free (pre' @ (S, False) # post')"
      using ap(3) an(4) h3(5) an(5) by (rule naf_free_between)
    show "\<And>x. ?m x \<noteq> None \<Longrightarrow> mem h4 x \<noteq> None"
      using h4(4) by (auto simp: h3(2) m2)
  qed
  with res flds show ?thesis by blast
qed

lemma wf_heap_same:
  "mem h' = mem h \<Longrightarrow> heap_start h' = heap_start h \<Longrightarrow> alloc_size h' = alloc_size h \<Longrightarrow>
   wf_heap h' bs = wf_heap h bs"
  by (simp add: wf_heap_def)

lemma free_block_fail_null: "ptr = 0 \<or> ptr mod 8 \<noteq> 0 \<Longrightarrow> free_block h ptr = Some (h, - 1)"
  by (simp add: free_block_def)

lemma free_block_fail_range:
  "ptr \<noteq> 0 \<Longrightarrow> ptr mod 8 = 0 \<Longrightarrow> ptr < heap_start h \<or> heap_start h + alloc_size h \<le> ptr \<Longrightarrow>
   free_block h ptr = Some (h\<lparr>heap_end := heap_start h + alloc_size h\<rparr>, - 1)"
  by (auto simp add: free_block_def)

lemma free_block_fail_free:
  "ptr \<noteq> 0 \<Longrightarrow> ptr mod 8 = 0 \<Longrightarrow> heap_start h \<le> ptr \<Longrightarrow> ptr < heap_start h + alloc_size h \<Longrightarrow>
   mem h (ptr - 4) = Some v \<Longrightarrow> v AND 1 = 0 \<Longrightarrow>
   free_block h ptr = Some (h\<lparr>heap_end := heap_start h + alloc_size h\<rparr>, - 1)"
  by (simp add: free_block_def load_def)

lemma free_block_cases:
  assumes wf: "wf_heap h bs"
  shows "(\<exists>h'. free_block h ptr = Some (h', - 1) \<and> mem h' = mem h \<and>
            heap_start h' = heap_start h \<and> alloc_size h' = alloc_size h \<and>
            allocated_once h' = allocated_once h) \<or>
         (\<exists>pre s post h'. bs = pre @ (s, True) # post \<and> ptr = heap_start h + total pre + 4 \<and>
            free_block h ptr = Some (h', 0) \<and> wf_heap h' (freed pre s post) \<and>
            heap_start h' = heap_start h \<and> alloc_size h' = alloc_size h \<and>
            heap_end h' = heap_start h + alloc_size h \<and>
            allocated_once h' = allocated_once h)"
proof -
  let ?hs = "heap_start h"
  consider (bad) "ptr = 0 \<or> ptr mod 8 \<noteq> 0"
    | (out) "ptr \<noteq> 0" "ptr mod 8 = 0" "ptr < ?hs \<or> ?hs + alloc_size h \<le> ptr"
    | (inr) "ptr \<noteq> 0" "ptr mod 8 = 0" "?hs \<le> ptr" "ptr < ?hs + alloc_size h"
    by linarith
  then show ?thesis
  proof cases
    case bad
    then show ?thesis by (intro disjI1 exI[of _ h]) (simp add: free_block_fail_null)
  next
    case out
    then show ?thesis
      by (intro disjI1 exI[of _ "h\<lparr>heap_end := ?hs + alloc_size h\<rparr>"])
        (simp add: free_block_fail_range)
  next
    case inr
    from wf have B: "blocks_at (mem h) ?hs True bs" and tot: "total bs = alloc_size h"
      and hs: "?hs mod 8 = 4"
      and mapped: "\<forall>k\<in>{0..<alloc_size h div 4}. mem h (?hs + 4 * k) \<noteq> None"
      by (simp_all add: wf_heap_def)
    define x where "x = ptr - 4"
    have x8: "(x - ?hs) mod 8 = 0" using inr(2) hs unfolding x_def by presburger
    have xl: "?hs \<le> x" using inr(2,3) hs unfolding x_def by presburger
    have xu: "x < ?hs + alloc_size h" using inr(4) by (simp add: x_def)
    define k where "k = (x - ?hs) div 4"
    have k4: "?hs + 4 * k = x" using x8 unfolding k_def by presburger
    have a8: "alloc_size h mod 8 = 0" using blocks_at_total_mod8[OF B] tot by simp
    have "0 \<le> k" "k < alloc_size h div 4" using k4 xl xu a8 by presburger+
    then have "k \<in> {0..<alloc_size h div 4}" by simp
    with mapped have "mem h (?hs + 4 * k) \<noteq> None" by blast
    then obtain v where v: "mem h x = Some v" unfolding k4 by blast
    show ?thesis
    proof (cases "v AND 1 = 0")
      case True
      then have "free_block h ptr = Some (h\<lparr>heap_end := ?hs + alloc_size h\<rparr>, - 1)"
        using inr v by (intro free_block_fail_free) (simp_all add: x_def)
      then show ?thesis
        by (intro disjI1 exI[of _ "h\<lparr>heap_end := ?hs + alloc_size h\<rparr>"]) simp
    next
      case False
      from locate_block[OF B xl _ x8 v False] xu tot
      obtain pre s post where bs: "bs = pre @ (s, True) # post" and x: "x = ?hs + total pre"
        by auto
      have p: "ptr = ?hs + total pre + 4" using x by (simp add: x_def)
      from free_block_wf[OF wf[unfolded bs]] obtain h' where
        "free_block h ptr = Some (h', 0)" "wf_heap h' (freed pre s post)"
        "heap_start h' = ?hs" "alloc_size h' = alloc_size h"
        "heap_end h' = ?hs + alloc_size h" "allocated_once h' = allocated_once h"
        unfolding p by blast
      then show ?thesis using bs p by blast
    qed
  qed
qed

lemma alloc_preserves_wf:
  assumes "wf_heap h bs" and "alloc h n = Some (h', p)"
  shows "\<exists>bs'. wf_heap h' bs'"
proof (cases "n < 1")
  case True
  then show ?thesis using assms by (auto simp: alloc_def)
next
  case False
  then have n: "1 \<le> n" by simp
  have fit: "required n \<le> INT_MAX"
  proof (rule ccontr)
    assume "\<not> required n \<le> INT_MAX"
    then have "alloc h n = None" using n by (intro alloc_overflow) auto
    with assms(2) show False by simp
  qed
  from alloc_cases[OF assms(1) n fit] show ?thesis
  proof
    assume "\<not> (\<exists>(s, al)\<in>set bs. \<not> al \<and> required n \<le> s) \<and>
      alloc h n = Some (h\<lparr>heap_end := heap_start h + alloc_size h\<rparr>, 0)"
    then have "h' = h\<lparr>heap_end := heap_start h + alloc_size h\<rparr>" using assms(2) by simp
    then have "wf_heap h' bs" using assms(1) by simp
    then show ?thesis ..
  next
    assume "\<exists>pre s post h'. best_fit bs (required n) pre s post \<and>
            alloc h n = Some (h', heap_start h + total pre + 4) \<and>
            heap_start h' = heap_start h \<and> alloc_size h' = alloc_size h \<and>
            heap_end h' = heap_start h + alloc_size h \<and>
            allocated_once h' = allocated_once h \<and>
            wf_heap h' (pre @ (if s = required n then [(s, True)]
                               else [(required n, True), (s - required n, False)]) @ post)"
    then obtain pre s post h'' where "alloc h n = Some (h'', heap_start h + total pre + 4)"
      "wf_heap h'' (pre @ (if s = required n then [(s, True)]
                               else [(required n, True), (s - required n, False)]) @ post)"
      by blast
    with assms(2) show ?thesis by auto
  qed
qed

lemma free_block_preserves_wf:
  assumes "wf_heap h bs" and "free_block h p = Some (h', r)"
  shows "\<exists>bs'. wf_heap h' bs'"
  using free_block_cases[OF assms(1), of p]
proof
  assume "\<exists>h'. free_block h p = Some (h', - 1) \<and> mem h' = mem h \<and>
            heap_start h' = heap_start h \<and> alloc_size h' = alloc_size h \<and>
            allocated_once h' = allocated_once h"
  then have "mem h' = mem h" "heap_start h' = heap_start h" "alloc_size h' = alloc_size h"
    using assms(2) by auto
  then have "wf_heap h' bs" using assms(1) wf_heap_same[of h' h bs] by simp
  then show ?thesis ..
next
  assume "\<exists>pre s post h'. bs = pre @ (s, True) # post \<and> p = heap_start h + total pre + 4 \<and>
            free_block h p = Some (h', 0) \<and> wf_heap h' (freed pre s post) \<and>
            heap_start h' = heap_start h \<and> alloc_size h' = alloc_size h \<and>
            heap_end h' = heap_start h + alloc_size h \<and>
            allocated_once h' = allocated_once h"
  then obtain pre s post h'' where "free_block h p = Some (h'', 0)" "wf_heap h'' (freed pre s post)"
    by blast
  with assms(2) show ?thesis by auto
qed

lemma reachable_wf: "reachable h \<Longrightarrow> \<exists>bs. wf_heap h bs"
proof (induction rule: reachable.induct)
  case (reach_init env n h)
  have "\<not> allocated_once initial" by (simp add: initial_def)
  from init_heap_wf[OF reach_init(1) this reach_init(2)] show ?case by blast
next
  case (reach_alloc h n h' p)
  then show ?case using alloc_preserves_wf by blast
next
  case (reach_free h p h' r)
  then show ?case using free_block_preserves_wf by blast
qed

section \<open>The claims\<close>

lemma reachable_heap0: "reachable heap0"
  using env0_ok init_heap0 by (rule reach_init)

lemma alloc_heap0: "alloc heap0 8 = Some (heap1, 65544)"
proof -
  have "map_option snd (alloc heap0 8) = Some 65544" by code_simp
  then show ?thesis by (auto simp: heap1_def)
qed

lemma free_block_heap1: "free_block heap1 65544 = Some (heap2, 0)"
proof -
  have "map_option snd (free_block heap1 65544) = Some 0" by code_simp
  then show ?thesis by (auto simp: heap2_def)
qed

lemma reachable_heap1: "reachable heap1"
  using reachable_heap0 alloc_heap0 by (rule reach_alloc)

lemma payload_mod8: "(a::int) mod 8 = 4 \<Longrightarrow> b mod 8 = 0 \<Longrightarrow> (a + b + 4) mod 8 = 0"
proof -
  assume a: "a mod 8 = 4" and b: "b mod 8 = 0"
  have "(a + b + 4) mod 8 = ((a mod 8 + b mod 8) mod 8 + 4 mod 8) mod 8"
    by (metis mod_add_eq)
  then show ?thesis by (simp add: a b)
qed

lemma alloc_not_None_fits:
  assumes "1 \<le> n" and "alloc h n = Some r"
  shows "required n \<le> INT_MAX"
proof (rule ccontr)
  assume "\<not> required n \<le> INT_MAX"
  then have "alloc h n = None" using assms(1) by (intro alloc_overflow) auto
  with assms(2) show False by simp
qed

lemma alloc_nonnull_block:
  assumes wf: "wf_heap h bs" and al: "alloc h n = Some (h', p)" and p: "p \<noteq> 0"
  shows "\<exists>pre s post. best_fit bs (required n) pre s post \<and> 1 \<le> n \<and>
    p = heap_start h + total pre + 4 \<and>
    heap_start h' = heap_start h \<and> alloc_size h' = alloc_size h \<and>
    wf_heap h' (pre @ (if s = required n then [(s, True)]
                       else [(required n, True), (s - required n, False)]) @ post)"
proof -
  have n: "1 \<le> n" using al p by (cases "n < 1") (auto simp: alloc_def)
  have fit: "required n \<le> INT_MAX" using n al by (rule alloc_not_None_fits)
  from alloc_cases[OF wf n fit] show ?thesis
  proof
    assume "\<not> (\<exists>(s, al)\<in>set bs. \<not> al \<and> required n \<le> s) \<and>
      alloc h n = Some (h\<lparr>heap_end := heap_start h + alloc_size h\<rparr>, 0)"
    with al p show ?thesis by simp
  next
    assume "\<exists>pre s post h'. best_fit bs (required n) pre s post \<and>
            alloc h n = Some (h', heap_start h + total pre + 4) \<and>
            heap_start h' = heap_start h \<and> alloc_size h' = alloc_size h \<and>
            heap_end h' = heap_start h + alloc_size h \<and>
            allocated_once h' = allocated_once h \<and>
            wf_heap h' (pre @ (if s = required n then [(s, True)]
                               else [(required n, True), (s - required n, False)]) @ post)"
    then obtain pre s post h'' where r: "best_fit bs (required n) pre s post"
      "alloc h n = Some (h'', heap_start h + total pre + 4)"
      "heap_start h'' = heap_start h" "alloc_size h'' = alloc_size h"
      "wf_heap h'' (pre @ (if s = required n then [(s, True)]
                               else [(required n, True), (s - required n, False)]) @ post)"
      by blast
    from r(2) al have "h'' = h'" "p = heap_start h + total pre + 4" by simp_all
    with r n show ?thesis by blast
  qed
qed

text \<open>
  C9. In every state reachable from a successful \<^verbatim>\<open>init_heap\<close>, a call of \<^verbatim>\<open>alloc\<close> that
  returns a non-null payload address returns a multiple of 8.
\<close>

theorem alloc_payload_aligned:
  assumes "reachable h" and "alloc h n = Some (h', p)" and "p \<noteq> 0"
  shows "p mod 8 = 0"
proof -
  from reachable_wf[OF assms(1)] obtain bs where wf: "wf_heap h bs" ..
  from alloc_nonnull_block[OF wf assms(2,3)] obtain pre s post where
    bf: "best_fit bs (required n) pre s post" and p: "p = heap_start h + total pre + 4"
    by blast
  have "blocks_at (mem h) (heap_start h) True (pre @ (s, False) # post)"
    using wf bf by (simp add: wf_heap_def best_fit_def)
  then have "blocks_at (mem h) (heap_start h) True pre" by (simp add: blocks_at_append)
  then have "total pre mod 8 = 0" by (rule blocks_at_total_mod8)
  moreover have "heap_start h mod 8 = 4" using wf by (simp add: wf_heap_def)
  ultimately show ?thesis unfolding p by (intro payload_mod8)
qed

theorem alloc_payload_aligned_witness:
  "reachable heap0 \<and> alloc heap0 8 = Some (heap1, 65544) \<and> (65544::int) \<noteq> 0 \<and>
   (65544::int) mod 8 = 0"
  using alloc_payload_aligned[OF reachable_heap0 alloc_heap0] reachable_heap0 alloc_heap0
  by simp

lemma contiguous_printed:
  "blocks_at m a p bs \<Longrightarrow> contiguous a (printed a p bs) (a + total bs)"
  by (induction m a p bs rule: blocks_at.induct) (simp_all add: add.assoc)

lemma row_blocks_printed: "row_blocks (printed a p bs) = bs"
  by (induction a p bs rule: printed.induct) (simp_all add: row_blocks_def)

lemma disp_heap_wf:
  assumes "wf_heap h bs"
  shows "disp_heap h = Some (printed (heap_start h) True bs, heap_start h + alloc_size h)"
proof -
  have "disp_loop h (heap_start h) =
      Some (printed (heap_start h) True bs, heap_start h + total bs)"
    by (rule disp_loop_blocks) (use assms in \<open>simp_all add: wf_heap_def\<close>)
  then show ?thesis using assms by (simp add: disp_heap_def wf_heap_def)
qed

text \<open>
  C5. In every state reachable from a successful \<^verbatim>\<open>init_heap\<close> by calls of \<^verbatim>\<open>alloc\<close> and
  \<^verbatim>\<open>free_block\<close> with any arguments, the walk of \<^verbatim>\<open>disp_heap\<close> from \<^verbatim>\<open>heap_start\<close> by the
  sizes in the headers ends, and ends at \<^verbatim>\<open>heap_start + alloc_size\<close>, where the end mark 1
  stands; the blocks it passes have positive sizes and follow one another without
  overlap or gap.
\<close>

theorem chain_reaches_end_mark:
  assumes "reachable h"
  shows "\<exists>rows. disp_heap h = Some (rows, heap_start h + alloc_size h) \<and>
    contiguous (heap_start h) rows (heap_start h + alloc_size h) \<and>
    mem h (heap_start h + alloc_size h) = Some 1"
proof -
  from reachable_wf[OF assms] obtain bs where wf: "wf_heap h bs" ..
  have "contiguous (heap_start h) (printed (heap_start h) True bs) (heap_start h + total bs)"
    by (rule contiguous_printed[of "mem h"]) (use wf in \<open>simp add: wf_heap_def\<close>)
  then show ?thesis using disp_heap_wf[OF wf] wf by (simp add: wf_heap_def)
qed

theorem chain_reaches_end_mark_witness:
  "reachable heap1 \<and>
   (\<exists>rows. disp_heap heap1 = Some (rows, heap_start heap1 + alloc_size heap1) \<and>
      contiguous (heap_start heap1) rows (heap_start heap1 + alloc_size heap1) \<and>
      mem heap1 (heap_start heap1 + alloc_size heap1) = Some 1) \<and>
   disp_heap heap1 = Some ([(65540, 16, True, True), (65556, 4072, False, True)], 69628)"
proof -
  have "disp_heap heap1 = Some ([(65540, 16, True, True), (65556, 4072, False, True)], 69628)"
    by code_simp
  then show ?thesis using chain_reaches_end_mark[OF reachable_heap1] reachable_heap1 by auto
qed

text \<open>
  C6. When \<^verbatim>\<open>free_block\<close> returns 0 in a reachable state, no two blocks that follow one
  another in the resulting chain are both free.
\<close>

theorem no_adjacent_free_after_release:
  assumes "reachable h" and "free_block h p = Some (h', 0)"
  shows "\<exists>rows stop. disp_heap h' = Some (rows, stop) \<and> no_adjacent_free (row_blocks rows)"
proof -
  have "reachable h'" using assms by (rule reach_free)
  from reachable_wf[OF this] obtain bs where wf: "wf_heap h' bs" ..
  have "no_adjacent_free (row_blocks (printed (heap_start h') True bs))"
    using wf by (simp add: row_blocks_printed wf_heap_def)
  with disp_heap_wf[OF wf] show ?thesis by blast
qed

theorem no_adjacent_free_after_release_witness:
  "reachable heap1 \<and> free_block heap1 65544 = Some (heap2, 0) \<and>
   (\<exists>rows stop. disp_heap heap2 = Some (rows, stop) \<and> no_adjacent_free (row_blocks rows)) \<and>
   disp_heap heap2 = Some ([(65540, 4088, False, True)], 69628)"
proof -
  have "disp_heap heap2 = Some ([(65540, 4088, False, True)], 69628)" by code_simp
  then show ?thesis
    using no_adjacent_free_after_release[OF reachable_heap1 free_block_heap1]
      reachable_heap1 free_block_heap1 by simp
qed

text \<open>
  C10, as the code has it. \<^verbatim>\<open>init_heap\<close> sets \<^verbatim>\<open>heap_start\<close> 4 bytes after the page-aligned
  address from \<^verbatim>\<open>mmap\<close>, so in every reachable state it is 4 modulo 8, not 8-byte aligned.
  \<^verbatim>\<open>free_block(heap_start)\<close> is therefore refused by the alignment check, the first
  check of the function, with no state changed; the word before \<^verbatim>\<open>heap_start\<close> is never
  read.
\<close>

theorem release_arena_start_misaligned:
  assumes "reachable h"
  shows "heap_start h mod 8 = 4 \<and> free_block h (heap_start h) = Some (h, - 1)"
proof -
  from reachable_wf[OF assms] obtain bs where "wf_heap h bs" ..
  then have "heap_start h mod 8 = 4" by (simp add: wf_heap_def)
  then show ?thesis by (simp add: free_block_fail_null)
qed

theorem release_arena_start_misaligned_witness:
  "reachable heap0 \<and> heap_start heap0 mod 8 = 4 \<and>
   free_block heap0 (heap_start heap0) = Some (heap0, - 1)"
  using release_arena_start_misaligned[OF reachable_heap0] reachable_heap0 by simp

text \<open>The start of the arena of \<open>heap0\<close> is not a multiple of 8: the alignment check
  fails there, so the claim's reason (an aligned pointer refused by the a-bit of the
  padding word) does not apply.\<close>

theorem release_arena_start_counterexample:
  "\<not> (heap_start heap0 mod 8 = 0)"
  by (simp add: heap0_start)

lemma wf_heap_ex: "wf_heap heap_ex blocks_ex"
  by code_simp

lemma wf_heap_ex2: "wf_heap heap_ex2 blocks_ex2"
  by code_simp

lemma alloc_heap_ex2: "alloc heap_ex2 20 = Some (heap_ex3, 65568)"
proof -
  have "map_option snd (alloc heap_ex2 20) = Some 65568" by code_simp
  then show ?thesis by (auto simp: heap_ex3_def)
qed

lemma required_20: "required 20 = 24"
  by (simp add: required_def)

text \<open>
  C1. On a well-formed heap, for a request of at least one byte: when \<^verbatim>\<open>alloc\<close> returns a
  non-null address, it is the payload address (header address plus 4) of a free block
  that is large enough for the required block size, strictly smaller than every
  large-enough free block before it and no larger than any after it; and when some free
  block is large enough, \<^verbatim>\<open>alloc\<close> does return a non-null address. A request whose
  size computation overflows \<^verbatim>\<open>int\<close> has no defined result and is not a return.
\<close>

theorem alloc_best_fit:
  assumes "wf_heap h bs" and "1 \<le> n"
  shows "(\<forall>h' p. alloc h n = Some (h', p) \<and> p \<noteq> 0 \<longrightarrow>
            (\<exists>pre s post. best_fit bs (required n) pre s post \<and>
               p = heap_start h + total pre + 4)) \<and>
         ((\<exists>(s, al) \<in> set bs. \<not> al \<and> required n \<le> s) \<longrightarrow>
            (\<exists>h' p. alloc h n = Some (h', p) \<and> p \<noteq> 0))"
proof (intro conjI allI impI)
  fix h' p assume "alloc h n = Some (h', p) \<and> p \<noteq> 0"
  then have "alloc h n = Some (h', p)" "p \<noteq> 0" by simp_all
  from alloc_nonnull_block[OF assms(1) this]
  show "\<exists>pre s post. best_fit bs (required n) pre s post \<and> p = heap_start h + total pre + 4"
    by blast
next
  assume ex: "\<exists>(s, al) \<in> set bs. \<not> al \<and> required n \<le> s"
  then obtain s al where x: "(s, al) \<in> set bs" "required n \<le> s" by blast
  have B: "blocks_at (mem h) (heap_start h) True bs" and tot: "total bs = alloc_size h"
    and bnd: "alloc_size h \<le> INT_MAX - 7" and hs: "0 < heap_start h"
    using assms(1) by (simp_all add: wf_heap_def)
  have "s \<le> total bs" using B x(1) by (rule blocks_at_size_le_total)
  then have fit: "required n \<le> INT_MAX" using x(2) tot bnd by linarith
  from alloc_cases[OF assms fit] ex
  obtain pre s' post h' where bf: "best_fit bs (required n) pre s' post"
    and al: "alloc h n = Some (h', heap_start h + total pre + 4)" by blast
  have "blocks_at (mem h) (heap_start h) True pre"
    using B bf by (simp add: best_fit_def blocks_at_append)
  then have "0 \<le> total pre" by (rule blocks_at_total_nonneg)
  then have "heap_start h + total pre + 4 \<noteq> 0" using hs by simp
  with al show "\<exists>h' p. alloc h n = Some (h', p) \<and> p \<noteq> 0" by blast
qed

theorem alloc_best_fit_witness:
  "wf_heap heap_ex blocks_ex \<and> (1::int) \<le> 20 \<and> required 20 = 24 \<and>
   (\<exists>h' pre s post. alloc heap_ex 20 = Some (h', 65616) \<and>
      best_fit blocks_ex (required 20) pre s post \<and>
      65616 = heap_start heap_ex + total pre + 4) \<and>
   map_option snd (alloc heap_ex 20) = Some 65616 \<and>
   best_fit blocks_ex 24 [(16, False), (8, True), (40, False), (8, True)] 24 [(24, True)] \<and>
   65616 = heap_start heap_ex + total [(16, False), (8, True), (40, False), (8, True)] + 4 \<and>
   wf_heap heap_ex2 blocks_ex2 \<and>
   map_option snd (alloc heap_ex2 20) = Some 65568 \<and>
   best_fit blocks_ex2 24 [(16, False), (8, True)] 40 [(8, True), (24, True), (24, True)] \<and>
   65568 = heap_start heap_ex2 + total [(16, False), (8, True)] + 4"
proof -
  have one: "(1::int) \<le> 20" by simp
  have fits: "\<exists>(s, al) \<in> set blocks_ex. \<not> al \<and> required 20 \<le> s"
    by (simp add: blocks_ex_def required_20)
  note t = alloc_best_fit[OF wf_heap_ex one]
  have c1: "map_option snd (alloc heap_ex 20) = Some 65616" by code_simp
  have c2: "map_option snd (alloc heap_ex2 20) = Some 65568" by code_simp
  have b1: "best_fit blocks_ex 24 [(16, False), (8, True), (40, False), (8, True)] 24 [(24, True)]"
    by (simp add: best_fit_def blocks_ex_def)
  have b2: "best_fit blocks_ex2 24 [(16, False), (8, True)] 40 [(8, True), (24, True), (24, True)]"
    by (simp add: best_fit_def blocks_ex2_def)
  have a1: "65616 = heap_start heap_ex + total [(16, False), (8, True), (40, False), (8, True)] + 4"
    by (simp add: heap_ex_def)
  have a2: "65568 = heap_start heap_ex2 + total [(16, False), (8, True)] + 4"
    by (simp add: heap_ex2_def heap_ex_def)
  from t have t1: "\<forall>h' p. alloc heap_ex 20 = Some (h', p) \<and> p \<noteq> 0 \<longrightarrow>
      (\<exists>pre s post. best_fit blocks_ex (required 20) pre s post \<and>
         p = heap_start heap_ex + total pre + 4)" by (rule conjunct1)
  from t have "(\<exists>(s, al) \<in> set blocks_ex. \<not> al \<and> required 20 \<le> s) \<longrightarrow>
      (\<exists>h' p. alloc heap_ex 20 = Some (h', p) \<and> p \<noteq> 0)" by (rule conjunct2)
  with fits have "\<exists>h' p. alloc heap_ex 20 = Some (h', p) \<and> p \<noteq> 0" by (rule rev_mp)
  then obtain h' p where al: "alloc heap_ex 20 = Some (h', p)" and p0: "p \<noteq> 0" by blast
  from c1 al have p: "p = 65616" by simp
  from t1 al p0 obtain pre s post where "best_fit blocks_ex (required 20) pre s post"
    and "p = heap_start heap_ex + total pre + 4" by blast
  with al p have t2: "\<exists>h' pre s post. alloc heap_ex 20 = Some (h', 65616) \<and>
      best_fit blocks_ex (required 20) pre s post \<and>
      65616 = heap_start heap_ex + total pre + 4" by blast
  show ?thesis
    by (intro conjI wf_heap_ex one required_20 t2 c1 b1 a1 wf_heap_ex2 c2 b2 a2)
qed

lemma total_pos_nonneg: "\<forall>(s, al) \<in> set bs. 0 < s \<Longrightarrow> 0 \<le> total bs"
  by (induction bs) (auto simp: total_def)

lemma decomp_unique:
  assumes "pre @ x # post = pre' @ x' # post'" and "total pre = total pre'"
    and "\<forall>(s, al) \<in> set (pre @ x # post). 0 < s"
  shows "pre = pre' \<and> x = x' \<and> post = post'"
  using assms
proof (induction pre arbitrary: pre')
  case Nil
  show ?case
  proof (cases pre')
    case Nil
    with Nil.prems show ?thesis by simp
  next
    case (Cons y ys)
    obtain t tal where y: "y = (t, tal)" by (cases y)
    have "\<forall>(s, al) \<in> set (y # ys). 0 < s" using Nil.prems(1,3) Cons by auto
    then have "0 < t" "0 \<le> total ys" using total_pos_nonneg[of ys] by (auto simp: y)
    then show ?thesis using Nil.prems(2) Cons by (simp add: y)
  qed
next
  case (Cons a as)
  obtain t tal where a: "a = (t, tal)" by (cases a)
  have pos: "0 < t" "0 \<le> total as" using Cons.prems(3) total_pos_nonneg[of as] by (auto simp: a)
  show ?case
  proof (cases pre')
    case Nil
    then show ?thesis using Cons.prems(2) pos by (simp add: a)
  next
    case (Cons y ys)
    then have "a = y" "as @ x # post = ys @ x' # post'" using Cons.prems(1) by simp_all
    moreover have "total as = total ys"
      using Cons.prems(2) Cons \<open>a = y\<close> by (auto simp: a)
    moreover have "\<forall>(s, al) \<in> set (as @ x # post). 0 < s" using Cons.prems(3) by simp
    ultimately show ?thesis using Cons.IH[of ys] Cons by simp
  qed
qed

lemma blocks_at_pos: "blocks_at m a p bs \<Longrightarrow> \<forall>(s, al) \<in> set bs. 0 < s"
  using blocks_at_size_ge8 by fastforce

text \<open>
  C2. On a well-formed heap, when \<^verbatim>\<open>alloc\<close> returns the payload of a free block of size
  \<open>s\<close> larger than the required size, that block has been split: its header now holds the
  required size with the p-bit it had and the a-bit set; right after the required size
  stands the header of a free block of size \<open>s\<close> minus the required size with p-bit 1 and
  a-bit 0, whose last word holds that size; and the returned address is the header
  address plus 4.
\<close>

theorem alloc_split:
  assumes "wf_heap h bs" and "alloc h n = Some (h', p)"
    and "bs = pre @ (s, False) # post" and "p = heap_start h + total pre + 4"
    and "required n < s"
  shows "mem h (p - 4) = Some (hdr s (last_alloc True pre) False) \<and>
    mem h' (p - 4) = Some (hdr (required n) (last_alloc True pre) True) \<and>
    mem h' (p - 4 + required n) = Some (hdr (s - required n) True False) \<and>
    mem h' (p - 4 + s - 4) = Some (s - required n) \<and>
    wf_heap h' (pre @ (required n, True) # (s - required n, False) # post)"
proof -
  let ?hs = "heap_start h"
  have B: "blocks_at (mem h) ?hs True bs" and hs: "0 < ?hs"
    using assms(1) by (simp_all add: wf_heap_def)
  have "blocks_at (mem h) ?hs True pre" using B by (simp add: assms(3) blocks_at_append)
  then have "0 \<le> total pre" by (rule blocks_at_total_nonneg)
  then have p0: "p \<noteq> 0" using hs assms(4) by simp
  from alloc_nonnull_block[OF assms(1,2) p0] obtain pre' s' post' where
    bf: "best_fit bs (required n) pre' s' post'" and p': "p = ?hs + total pre' + 4"
    and hs': "heap_start h' = ?hs"
    and wf': "wf_heap h' (pre' @ (if s' = required n then [(s', True)]
                       else [(required n, True), (s' - required n, False)]) @ post')"
    by blast
  have "pre @ (s, False) # post = pre' @ (s', False) # post'"
    using bf assms(3) by (simp add: best_fit_def)
  moreover have "total pre = total pre'" using assms(4) p' by simp
  moreover have "\<forall>(s, al) \<in> set (pre @ (s, False) # post). 0 < s"
    using blocks_at_pos[OF B] by (simp add: assms(3))
  ultimately have eq: "pre' = pre" "s' = s" "post' = post"
    using decomp_unique[of pre "(s, False)" post pre' "(s', False)" post'] by simp_all
  have wf2: "wf_heap h' (pre @ (required n, True) # (s - required n, False) # post)"
    using wf' assms(5) by (simp add: eq)
  then have B': "blocks_at (mem h') ?hs True
      (pre @ (required n, True) # (s - required n, False) # post)"
    by (simp add: wf_heap_def hs')
  have a: "p - 4 = ?hs + total pre" using assms(4) by simp
  have "mem h (p - 4) = Some (hdr s (last_alloc True pre) False)"
    using B unfolding a by (simp add: assms(3) blocks_at_append)
  moreover have "mem h' (p - 4) = Some (hdr (required n) (last_alloc True pre) True)"
    "mem h' (p - 4 + required n) = Some (hdr (s - required n) True False)"
    "mem h' (p - 4 + s - 4) = Some (s - required n)"
    using B' unfolding a by (simp_all add: blocks_at_append add.assoc)
  ultimately show ?thesis using wf2 by simp
qed

theorem alloc_split_witness:
  "wf_heap heap_ex2 blocks_ex2 \<and> alloc heap_ex2 20 = Some (heap_ex3, 65568) \<and>
   blocks_ex2 = [(16, False), (8, True)] @ (40, False) # [(8, True), (24, True), (24, True)] \<and>
   65568 = heap_start heap_ex2 + total [(16, False), (8, True)] + 4 \<and>
   required 20 < 40 \<and>
   mem heap_ex2 65564 = Some 42 \<and> mem heap_ex3 65564 = Some 27 \<and>
   mem heap_ex3 65588 = Some 18 \<and> mem heap_ex3 65600 = Some 16"
proof -
  have d: "blocks_ex2 = [(16, False), (8, True)] @ (40, False) # [(8, True), (24, True), (24, True)]"
    by (simp add: blocks_ex2_def)
  have a: "65568 = heap_start heap_ex2 + total [(16, False), (8, True)] + 4"
    by (simp add: heap_ex2_def heap_ex_def)
  have r: "required 20 < 40" by (simp add: required_20)
  from alloc_split[OF wf_heap_ex2 alloc_heap_ex2 d a r]
  have "mem heap_ex2 65564 = Some 42 \<and> mem heap_ex3 65564 = Some 27 \<and>
   mem heap_ex3 65588 = Some 18 \<and> mem heap_ex3 65600 = Some 16"
    by (simp add: required_20 hdr_def)
  then show ?thesis by (intro conjI wf_heap_ex2 alloc_heap_ex2 d a r) simp_all
qed

lemma freed_restore_exact:
  assumes "last_alloc True pre" and "case post of [] \<Rightarrow> True | (t, tal) # _ \<Rightarrow> tal"
  shows "freed pre s post = pre @ (s, False) # post"
proof -
  have "absorb_next s post = (s, post)"
    using assms(2) by (auto simp: absorb_next_def split: list.splits)
  moreover have "absorb_prev pre s = (pre, s)"
    using assms(1) by (auto simp: absorb_prev_def last_alloc_def)
  ultimately show ?thesis by (simp add: freed_def)
qed

lemma freed_restore_split:
  assumes "last_alloc True pre"
  shows "freed pre sz ((r, False) # post) = pre @ (sz + r, False) # post"
proof -
  have "absorb_next sz ((r, False) # post) = (sz + r, post)" by (simp add: absorb_next_def)
  moreover have "absorb_prev pre (sz + r) = (pre, sz + r)"
    using assms by (auto simp: absorb_prev_def last_alloc_def)
  ultimately show ?thesis by (simp add: freed_def)
qed

lemma same_words:
  "blocks_at m a p bs \<Longrightarrow> blocks_at m' a p bs \<Longrightarrow>
   \<forall>(c, s, al) \<in> set (layout a bs). m' c = m c \<and> (\<not> al \<longrightarrow> m' (c + s - 4) = m (c + s - 4))"
  by (induction m a p bs rule: blocks_at.induct) auto

text \<open>
  C4. On a well-formed heap with block list \<open>bs\<close>, \<^verbatim>\<open>alloc\<close> followed at once by
  \<^verbatim>\<open>free_block\<close> of the address returned gives a well-formed heap with the same block
  list at the same place: every header word, every footer word of a free block and the
  end mark have the values they had before the allocation.
\<close>

theorem alloc_then_release_restores:
  assumes "wf_heap h bs" and "alloc h n = Some (h1, p)"
  shows "\<exists>h2 r. free_block h1 p = Some (h2, r) \<and> wf_heap h2 bs \<and>
    heap_start h2 = heap_start h \<and> alloc_size h2 = alloc_size h \<and>
    (\<forall>(c, s, al) \<in> set (layout (heap_start h) bs).
        mem h2 c = mem h c \<and> (\<not> al \<longrightarrow> mem h2 (c + s - 4) = mem h (c + s - 4))) \<and>
    mem h2 (heap_start h + alloc_size h) = mem h (heap_start h + alloc_size h)"
proof -
  let ?hs = "heap_start h"
  have main: "\<exists>h2 r. free_block h1 p = Some (h2, r) \<and> wf_heap h2 bs \<and>
    heap_start h2 = ?hs \<and> alloc_size h2 = alloc_size h"
  proof (cases "p = 0")
    case True
    have "mem h1 = mem h \<and> heap_start h1 = ?hs \<and> alloc_size h1 = alloc_size h"
    proof (cases "n < 1")
      case True
      then show ?thesis using assms(2) by (simp add: alloc_def)
    next
      case False
      then have n: "1 \<le> n" by simp
      have fit: "required n \<le> INT_MAX" using n assms(2) by (rule alloc_not_None_fits)
      have "0 \<le> total pre" if "best_fit bs (required n) pre s post" for pre s post
      proof -
        have "blocks_at (mem h) ?hs True pre"
          using assms(1) that by (simp add: wf_heap_def best_fit_def blocks_at_append)
        then show ?thesis by (rule blocks_at_total_nonneg)
      qed
      moreover have "0 < ?hs" using assms(1) by (simp add: wf_heap_def)
      ultimately have "alloc h n = Some (h\<lparr>heap_end := ?hs + alloc_size h\<rparr>, 0)"
        using alloc_cases[OF assms(1) n fit] assms(2) True by fastforce
      then show ?thesis using assms(2) by auto
    qed
    then have "wf_heap h1 bs" using assms(1) wf_heap_same[of h1 h bs] by simp
    moreover have "free_block h1 p = Some (h1, - 1)" using True by (simp add: free_block_fail_null)
    ultimately show ?thesis
      using \<open>mem h1 = mem h \<and> heap_start h1 = ?hs \<and> alloc_size h1 = alloc_size h\<close> by blast
  next
    case False
    from alloc_nonnull_block[OF assms False] obtain pre s post where
      bf: "best_fit bs (required n) pre s post" and p: "p = ?hs + total pre + 4"
      and f: "heap_start h1 = ?hs" "alloc_size h1 = alloc_size h"
      and wf1: "wf_heap h1 (pre @ (if s = required n then [(s, True)]
                       else [(required n, True), (s - required n, False)]) @ post)"
      by blast
    have bs: "bs = pre @ (s, False) # post" using bf by (simp add: best_fit_def)
    have "no_adjacent_free (pre @ (s, False) # post)"
      using assms(1) by (simp add: wf_heap_def bs)
    from naf_append_free[OF this]
    have lp: "last_alloc True pre" and hp: "case post of [] \<Rightarrow> True | (t, tal) # _ \<Rightarrow> tal"
      by simp_all
    have "\<exists>h2. free_block h1 p = Some (h2, 0) \<and> wf_heap h2 (pre @ (s, False) # post) \<and>
      heap_start h2 = heap_start h1 \<and> alloc_size h2 = alloc_size h1"
    proof (cases "s = required n")
      case True
      then have "wf_heap h1 (pre @ (s, True) # post)" using wf1 by simp
      from free_block_wf[OF this] show ?thesis
        unfolding freed_restore_exact[OF lp hp] f p by blast
    next
      case False
      then have "wf_heap h1 (pre @ (required n, True) # (s - required n, False) # post)"
        using wf1 by simp
      from free_block_wf[OF this] show ?thesis
        unfolding freed_restore_split[OF lp] f p by auto
    qed
    then show ?thesis unfolding bs f by blast
  qed
  then obtain h2 r where r: "free_block h1 p = Some (h2, r)" "wf_heap h2 bs"
    "heap_start h2 = ?hs" "alloc_size h2 = alloc_size h" by blast
  have "blocks_at (mem h) ?hs True bs" "blocks_at (mem h2) ?hs True bs"
    using assms(1) r(2,3) by (simp_all add: wf_heap_def)
  from same_words[OF this]
  have w: "\<forall>(c, s, al) \<in> set (layout ?hs bs).
        mem h2 c = mem h c \<and> (\<not> al \<longrightarrow> mem h2 (c + s - 4) = mem h (c + s - 4))" .
  have "mem h2 (?hs + alloc_size h) = mem h (?hs + alloc_size h)"
    using assms(1) r(2,3,4) by (simp add: wf_heap_def)
  with r w show ?thesis by blast
qed

theorem alloc_then_release_restores_witness:
  "wf_heap heap0 [(4088, False)] \<and> alloc heap0 8 = Some (heap1, 65544) \<and>
   free_block heap1 65544 = Some (heap2, 0) \<and> wf_heap heap2 [(4088, False)] \<and>
   mem heap1 65540 = Some 19 \<and> mem heap1 69624 = Some 4072 \<and>
   mem heap2 65540 = mem heap0 65540 \<and> mem heap2 69624 = mem heap0 69624 \<and>
   mem heap2 69628 = mem heap0 69628"
proof -
  have i: "\<not> allocated_once initial" by (simp add: initial_def)
  have a: "alloc_size heap0 = 4088"
    using init_heap_result[OF env0_ok i init_heap0] by (simp add: env0_def page_round_def)
  have wf: "wf_heap heap0 [(4088, False)]"
    using init_heap_wf[OF env0_ok i init_heap0] by (simp add: a)
  from alloc_then_release_restores[OF wf alloc_heap0]
  have "wf_heap heap2 [(4088, False)] \<and> mem heap2 65540 = mem heap0 65540 \<and>
    mem heap2 69624 = mem heap0 69624 \<and> mem heap2 69628 = mem heap0 69628"
    by (simp add: free_block_heap1 heap0_start a)
  moreover have "mem heap1 65540 = Some 19 \<and> mem heap1 69624 = Some 4072" by code_simp
  ultimately show ?thesis using wf alloc_heap0 free_block_heap1 by simp
qed

lemma wf_heap1: "wf_heap heap1 [(16, True), (4072, False)]"
  by code_simp

text \<open>
  C3, as the code has it. When \<^verbatim>\<open>free_block\<close> returns 0 on a well-formed heap, the block
  freed is an allocated block of the chain, and the free block it ends up in (after
  absorbing a free successor and being absorbed by a free predecessor) has its size in
  its header and in its last word. The footer is written in every case, also when the
  merged block ends at \<^verbatim>\<open>heap_start + alloc_size\<close>: its footer address is then 4 below
  \<^verbatim>\<open>heap_end\<close>, so the guard \<^verbatim>\<open>ptr_footer < heap_end\<close> holds.
\<close>

theorem release_writes_footer:
  assumes "wf_heap h bs" and "free_block h ptr = Some (h', 0)"
  shows "\<exists>pre s post. bs = pre @ (s, True) # post \<and> ptr = heap_start h + total pre + 4 \<and>
    (let s1 = fst (absorb_next s post);
         pre' = fst (absorb_prev pre s1);
         S = snd (absorb_prev pre s1)
     in mem h' (heap_start h + total pre') = Some (hdr S True False) \<and>
        mem h' (heap_start h + total pre' + S - 4) = Some S)"
proof -
  from free_block_cases[OF assms(1), of ptr] assms(2)
  obtain pre s post where bs: "bs = pre @ (s, True) # post"
    and p: "ptr = heap_start h + total pre + 4"
    and wf': "wf_heap h' (freed pre s post)" and hs: "heap_start h' = heap_start h"
    by auto
  define s1 where "s1 = fst (absorb_next s post)"
  define pre' where "pre' = fst (absorb_prev pre s1)"
  define S where "S = snd (absorb_prev pre s1)"
  have B: "blocks_at (mem h') (heap_start h) True (pre' @ (S, False) # snd (absorb_next s post))"
    using wf' by (simp add: wf_heap_def hs freed_eq pre'_def S_def s1_def)
  have naf: "no_adjacent_free (pre' @ (S, False) # snd (absorb_next s post))"
    using wf' by (simp add: wf_heap_def freed_eq pre'_def S_def s1_def)
  have lp: "last_alloc True pre'" using naf_append_free[OF naf] by simp
  have "mem h' (heap_start h + total pre') = Some (hdr S True False) \<and>
        mem h' (heap_start h + total pre' + S - 4) = Some S"
    using B by (simp add: blocks_at_append lp)
  then have "bs = pre @ (s, True) # post \<and> ptr = heap_start h + total pre + 4 \<and>
    (let s1 = fst (absorb_next s post);
         pre' = fst (absorb_prev pre s1);
         S = snd (absorb_prev pre s1)
     in mem h' (heap_start h + total pre') = Some (hdr S True False) \<and>
        mem h' (heap_start h + total pre' + S - 4) = Some S)"
    using bs p by (simp add: s1_def pre'_def S_def Let_def)
  then show ?thesis by (intro exI)
qed

theorem release_writes_footer_witness:
  "wf_heap heap1 [(16, True), (4072, False)] \<and> free_block heap1 65544 = Some (heap2, 0) \<and>
   (\<exists>pre s post. [(16, True), (4072, False)] = pre @ (s, True) # post \<and>
      65544 = heap_start heap1 + total pre + 4 \<and>
      (let s1 = fst (absorb_next s post);
           pre' = fst (absorb_prev pre s1);
           S = snd (absorb_prev pre s1)
       in mem heap2 (heap_start heap1 + total pre') = Some (hdr S True False) \<and>
          mem heap2 (heap_start heap1 + total pre' + S - 4) = Some S)) \<and>
   mem heap2 69624 = Some 4088"
proof -
  have "mem heap2 69624 = Some 4088" by code_simp
  with release_writes_footer[OF wf_heap1 free_block_heap1] wf_heap1 free_block_heap1
  show ?thesis by simp
qed

text \<open>
  The claim fails on \<open>heap0\<close> after \<^verbatim>\<open>alloc(8)\<close>: freeing that block merges it with the rest
  of the arena into one free block from 65540 to 69628, which is \<^verbatim>\<open>heap_start + alloc_size\<close>,
  and the word at 69624, the last of the merged block, is rewritten from 4072 to 4088.
\<close>

theorem release_footer_at_end_counterexample:
  "alloc heap0 8 = Some (heap1, 65544) \<and> free_block heap1 65544 = Some (heap2, 0) \<and>
   disp_heap heap2 = Some ([(65540, 4088, False, True)], 69628) \<and>
   heap_start heap2 + alloc_size heap2 = 69628 \<and>
   mem heap1 69624 = Some 4072 \<and> mem heap2 69624 = Some 4088 \<and>
   mem heap2 69624 \<noteq> mem heap1 69624"
proof -
  have "disp_heap heap2 = Some ([(65540, 4088, False, True)], 69628) \<and>
   heap_start heap2 + alloc_size heap2 = 69628 \<and>
   mem heap1 69624 = Some 4072 \<and> mem heap2 69624 = Some 4088"
    by code_simp
  then show ?thesis using alloc_heap0 free_block_heap1 by simp
qed

lemma alloc_fail_small: "n < 1 \<Longrightarrow> alloc h n = Some (h, 0)"
  by (simp add: alloc_def)

lemma alloc_fail_exhausted:
  assumes "wf_heap h bs" and "1 \<le> n" and "required n \<le> INT_MAX"
    and "\<not> (\<exists>(s, al) \<in> set bs. \<not> al \<and> required n \<le> s)"
  shows "alloc h n = Some (h\<lparr>heap_end := heap_start h + alloc_size h\<rparr>, 0)"
  using alloc_cases[OF assms(1,2,3)] assms(4) by (auto simp: best_fit_def)

lemma free_block_fail_unchanged:
  assumes "free_block h ptr = Some (h', - 1)"
  shows "mem h' = mem h \<and> heap_start h' = heap_start h \<and> alloc_size h' = alloc_size h"
  using assms
  by (auto simp: free_block_def load_def store_def coalesce_next_def coalesce_prev_def
      finish_free_def split: if_splits bind_splits prod.splits)

text \<open>
  C7 at the largest request. \<^verbatim>\<open>alloc(2147483647)\<close> on \<open>heap0\<close>, whose only free block has
  4088 bytes: the required block size is 2147483656, so no free block is large enough,
  but \<^verbatim>\<open>size += 4\<close> overflows \<^verbatim>\<open>int\<close> and the call has no defined result, where the
  comment of \<^verbatim>\<open>alloc\<close> promises NULL.
\<close>

theorem alloc_huge_request_undefined:
  "required 2147483647 = 2147483656 \<and> disp_heap heap0 = Some ([(65540, 4088, False, True)], 69628) \<and>
   alloc heap0 2147483647 = None"
proof -
  have "required 2147483647 = 2147483656" by (simp add: required_def)
  moreover have "disp_heap heap0 = Some ([(65540, 4088, False, True)], 69628)" by code_simp
  moreover have "alloc heap0 2147483647 = None"
    by (rule alloc_overflow) (simp_all add: required_def INT_MAX_def)
  ultimately show ?thesis by simp
qed

end
